theory Spec2Isabelle
  imports Main "HOL-Library.Word"
begin

unbundle bit_operations_syntax

section \<open>Platform and data model\<close>

text \<open>
  The formatter of \<^verbatim>\<open>printf.c\<close> is embedded for the platform its header comment names
  (32 bit ARM): \<^verbatim>\<open>int\<close>, \<^verbatim>\<open>long\<close>, \<^verbatim>\<open>size_t\<close>, \<^verbatim>\<open>ptrdiff_t\<close> and pointers are 32 bits wide,
  \<^verbatim>\<open>long long\<close> and \<^verbatim>\<open>intmax_t\<close> are 64 bits wide, plain \<^verbatim>\<open>char\<close> is unsigned. The table
  \<^verbatim>\<open>pow10_long\<close> has ten entries, the powers of ten below \<open>2 ^ 32\<close>, which fixes the width
  of \<^verbatim>\<open>long\<close>. Unsigned arithmetic wraps; negating the least signed value wraps as well
  (two's complement), which is what the macro \<^verbatim>\<open>ABS\<close> computes on this platform.
\<close>

type_synonym uint8_t = "8 word"
type_synonym uint16_t = "16 word"
type_synonym c_uint = "32 word"
type_synonym c_ulong = "32 word"
type_synonym c_ulonglong = "64 word"
type_synonym size_t = "32 word"

definition NUL :: char where
  "NUL = CHR 0x00"

text \<open>\<^verbatim>\<open>#define MAX(a,b)\<close> and \<^verbatim>\<open>#define ABS(a)\<close>; \<^verbatim>\<open>MAX\<close> is only used on
  \<^verbatim>\<open>uint8_t\<close> operands, which C promotes to \<^verbatim>\<open>int\<close> before subtracting.\<close>

definition MAX_int :: "int \<Rightarrow> int \<Rightarrow> int" where
  "MAX_int a b = (if a > b then a else b)"

definition ABS :: "'a::len word \<Rightarrow> 'a word" where
  "ABS a = (if a <s 0 then - a else a)"

subsection \<open>Flags\<close>

definition FLAGS_ZEROPAD :: uint16_t where "FLAGS_ZEROPAD = push_bit 0 1"
definition FLAGS_LEFT :: uint16_t where "FLAGS_LEFT = push_bit 1 1"
definition FLAGS_PLUS :: uint16_t where "FLAGS_PLUS = push_bit 2 1"
definition FLAGS_SPACE :: uint16_t where "FLAGS_SPACE = push_bit 3 1"
definition FLAGS_HASH :: uint16_t where "FLAGS_HASH = push_bit 4 1"
definition FLAGS_UPPERCASE :: uint16_t where "FLAGS_UPPERCASE = push_bit 5 1"
definition FLAGS_CHAR :: uint16_t where "FLAGS_CHAR = push_bit 6 1"
definition FLAGS_SHORT :: uint16_t where "FLAGS_SHORT = push_bit 7 1"
definition FLAGS_LONG :: uint16_t where "FLAGS_LONG = push_bit 8 1"
definition FLAGS_LONG_LONG :: uint16_t where "FLAGS_LONG_LONG = push_bit 9 1"
definition FLAGS_PRECISION :: uint16_t where "FLAGS_PRECISION = push_bit 10 1"
definition FLAGS_ADAPT_EXP :: uint16_t where "FLAGS_ADAPT_EXP = push_bit 11 1"
definition FLAGS_NEGATIVE :: uint16_t where "FLAGS_NEGATIVE = push_bit 12 1"

text \<open>The C test \<^verbatim>\<open>if (flags & MASK)\<close>.\<close>

definition tst :: "uint16_t \<Rightarrow> uint16_t \<Rightarrow> bool" where
  "tst f m = (f AND m \<noteq> 0)"

datatype base_t = BASE_BINARY | BASE_OCTAL | BASE_DECIMAL | BASE_HEX

text \<open>
  \<^verbatim>\<open>data_t\<close>. The sink is the pair of the function pointer \<open>out\<close> and its context
  \<open>ptr\<close>; \<open>out\<close> returns nothing in C, so its effect is the new value of the context.
\<close>

record 'p data_t =
  out :: "char \<Rightarrow> 'p \<Rightarrow> 'p"
  ptr :: 'p
  flags :: uint16_t
  idx :: uint8_t
  width :: uint8_t
  precision :: uint8_t
  base :: base_t
  digit_count :: uint8_t

subsection \<open>Sinks\<close>

text \<open>
  Memory is a store from addresses to bytes; address 0 is \<^verbatim>\<open>NULL\<close>. The context of
  \<^verbatim>\<open>out_sprintf\<close> is the store together with the \<^verbatim>\<open>sprintf_data_t\<close> it points to.
\<close>

type_synonym addr = nat
type_synonym heap = "addr \<Rightarrow> char"

definition NULL :: addr where
  "NULL = 0"

record sprintf_data_t =
  buffer :: addr
  maxlen :: size_t

definition out_sprintf :: "char \<Rightarrow> heap \<times> sprintf_data_t \<Rightarrow> heap \<times> sprintf_data_t" where
  "out_sprintf character st =
     (case st of (h, data) \<Rightarrow>
        if maxlen data > 0 \<and> buffer data \<noteq> NULL
        then (h(buffer data := character),
              data\<lparr>buffer := buffer data + 1, maxlen := maxlen data - 1\<rparr>)
        else (h, data))"

text \<open>
  The external primitive \<^verbatim>\<open>_putchar\<close> is the device: its state is the sequence of
  characters it has received.
\<close>

type_synonym device = "char list"

definition putchar_ext :: "char \<Rightarrow> device \<Rightarrow> device" where
  "putchar_ext character dev = dev @ [character]"

definition out_char :: "char \<Rightarrow> device \<Rightarrow> device" where
  "out_char character dev = (if character \<noteq> NUL then putchar_ext character dev else dev)"

subsection \<open>Small helpers\<close>

definition is_digit :: "char \<Rightarrow> bool" where
  "is_digit ch = ((of_char ch :: nat) \<ge> of_char (CHR ''0'') \<and> (of_char ch :: nat) \<le> of_char (CHR ''9''))"

definition do_out :: "'p data_t \<Rightarrow> char \<Rightarrow> 'p data_t" where
  "do_out data c = data\<lparr>ptr := out data c (ptr data), idx := idx data + 1\<rparr>"

text \<open>\<^verbatim>\<open>strnlen_s\<close>: the string is given by its bytes; it ends at the first NUL or at the
  end of the list, where the terminator stands.\<close>

fun strnlen_s :: "char list \<Rightarrow> nat \<Rightarrow> nat" where
  "strnlen_s [] maxsize = 0"
| "strnlen_s (c # s) maxsize =
     (if c \<noteq> NUL \<and> maxsize > 0 then Suc (strnlen_s s (maxsize - 1)) else 0)"

section \<open>Field layout: \<^verbatim>\<open>ntoa_format\<close>\<close>

text \<open>Lines 201 to 223: the width and precision left for padding.\<close>

definition ntoa_format_adjust :: "'p data_t \<Rightarrow> 'p data_t" where
  "ntoa_format_adjust data0 =
     (let data1 = data0\<lparr>width := word_of_int (MAX_int (uint (width data0) - uint (digit_count data0)) 0)\<rparr>;
          data2 = data1\<lparr>precision := word_of_int (MAX_int (uint (precision data1) - uint (digit_count data1)) 0)\<rparr>;
          data3 = (if width data2 > 0 \<and> tst (flags data2) (FLAGS_NEGATIVE OR FLAGS_PLUS OR FLAGS_SPACE)
                   then data2\<lparr>width := width data2 - 1\<rparr> else data2);
          data4 = (if tst (flags data3) FLAGS_PRECISION
                   then data3\<lparr>width := word_of_int (MAX_int (uint (width data3) - uint (precision data3)) 0)\<rparr>
                   else data3)
      in if tst (flags data4) FLAGS_HASH
         then (if base data4 = BASE_HEX \<or> base data4 = BASE_BINARY
               then data4\<lparr>width := word_of_int (MAX_int (uint (width data4) - 2) 0)\<rparr>
               else if width data4 > 0 then data4\<lparr>width := width data4 - 1\<rparr>
               else data4)
         else data4)"

text \<open>The loop \<^verbatim>\<open>while (data->width > 0) { out(' '); idx++; width--; }\<close>.\<close>

function pad_spaces :: "'p data_t \<Rightarrow> 'p data_t" where
  "pad_spaces data =
     (if width data > 0
      then pad_spaces (data\<lparr>ptr := out data (CHR '' '') (ptr data), idx := idx data + 1,
                             width := width data - 1\<rparr>)
      else data)"
  by pat_completeness auto
termination
  by (relation "measure (\<lambda>data. unat (width data))")
     (auto simp: unat_minus_one word_greater_zero_iff unat_gt_0)

text \<open>The loop \<^verbatim>\<open>while ((data->flags & FLAGS_ZEROPAD) && data->width > 0) { out('0'); idx++; width--; }\<close>.\<close>

function pad_zeros :: "'p data_t \<Rightarrow> 'p data_t" where
  "pad_zeros data =
     (if tst (flags data) FLAGS_ZEROPAD \<and> width data > 0
      then pad_zeros (data\<lparr>ptr := out data (CHR ''0'') (ptr data), idx := idx data + 1,
                            width := width data - 1\<rparr>)
      else data)"
  by pat_completeness auto
termination
  by (relation "measure (\<lambda>data. unat (width data))")
     (auto simp: unat_minus_one word_greater_zero_iff unat_gt_0)

text \<open>The loop \<^verbatim>\<open>while (data->precision > 0) { out('0'); idx++; precision--; }\<close>.\<close>

function pad_precision :: "'p data_t \<Rightarrow> 'p data_t" where
  "pad_precision data =
     (if precision data > 0
      then pad_precision (data\<lparr>ptr := out data (CHR ''0'') (ptr data), idx := idx data + 1,
                                precision := precision data - 1\<rparr>)
      else data)"
  by pat_completeness auto
termination
  by (relation "measure (\<lambda>data. unat (precision data))")
     (auto simp: unat_minus_one word_greater_zero_iff unat_gt_0)

definition ntoa_format_sign :: "'p data_t \<Rightarrow> 'p data_t" where
  "ntoa_format_sign data =
     (if tst (flags data) FLAGS_NEGATIVE then do_out data (CHR ''-'')
      else if tst (flags data) FLAGS_PLUS then do_out data (CHR ''+'')
      else if tst (flags data) FLAGS_SPACE then do_out data (CHR '' '')
      else data)"

definition ntoa_format_hash :: "'p data_t \<Rightarrow> 'p data_t" where
  "ntoa_format_hash data =
     (if tst (flags data) FLAGS_HASH
      then (let data1 = do_out data (CHR ''0'')
            in if base data1 = BASE_HEX \<and> \<not> tst (flags data1) FLAGS_UPPERCASE then do_out data1 (CHR ''x'')
               else if base data1 = BASE_HEX \<and> tst (flags data1) FLAGS_UPPERCASE then do_out data1 (CHR ''X'')
               else if base data1 = BASE_BINARY then do_out data1 (CHR ''b'')
               else data1)
      else data)"

definition ntoa_format :: "'p data_t \<Rightarrow> 'p data_t" where
  "ntoa_format data0 =
     (let data1 = ntoa_format_adjust data0;
          data2 = (if \<not> tst (flags data1) FLAGS_LEFT \<and> \<not> tst (flags data1) FLAGS_ZEROPAD
                   then pad_spaces data1 else data1);
          data3 = ntoa_format_sign data2;
          data4 = ntoa_format_hash data3
      in if \<not> tst (flags data4) FLAGS_LEFT
         then pad_zeros (pad_precision data4)
         else data4)"

section \<open>Numeric converter\<close>

definition pow10_long :: "c_ulong list" where
  "pow10_long = [1, 10, 100, 1000, 10000, 100000, 1000000, 10000000, 100000000, 1000000000]"

definition pow10_long_long :: "c_ulonglong list" where
  "pow10_long_long = [1, 10, 100, 1000, 10000, 100000, 1000000, 10000000, 100000000, 1000000000,
     10000000000, 100000000000, 1000000000000, 10000000000000, 100000000000000, 1000000000000000,
     10000000000000000, 100000000000000000, 1000000000000000000, 10000000000000000000]"

text \<open>\<^verbatim>\<open>base_bits\<close> and \<^verbatim>\<open>base_mask\<close>, indexed by \<^verbatim>\<open>base_t\<close> (and the identical local
  tables \<^verbatim>\<open>bits\<close> and \<^verbatim>\<open>mask\<close> of \<^verbatim>\<open>ntoa_long_long\<close>).\<close>

fun base_bits :: "base_t \<Rightarrow> nat" where
  "base_bits BASE_BINARY = 1"
| "base_bits BASE_OCTAL = 3"
| "base_bits BASE_DECIMAL = 0"
| "base_bits BASE_HEX = 4"

fun base_mask :: "base_t \<Rightarrow> 'a::len word" where
  "base_mask BASE_BINARY = 1"
| "base_mask BASE_OCTAL = 7"
| "base_mask BASE_DECIMAL = 0"
| "base_mask BASE_HEX = 15"

text \<open>
  \<^verbatim>\<open>get_digits_long\<close>: the branch on the base is invariant under both loops, so one
  recursive function carries the local \<^verbatim>\<open>digits\<close> through either loop.
\<close>

function get_digits_long_loop :: "c_ulong \<Rightarrow> base_t \<Rightarrow> uint8_t \<Rightarrow> uint8_t" where
  "get_digits_long_loop v b digits =
     (if b = BASE_DECIMAL
      then (if unat digits < length pow10_long \<and> v \<ge> pow10_long ! unat digits
            then get_digits_long_loop v b (digits + 1) else digits)
      else (if v > 0 then get_digits_long_loop (drop_bit (base_bits b) v) b (digits + 1) else digits))"
  by pat_completeness auto
termination
proof (relation "measure (\<lambda>(v, b, digits). if b = BASE_DECIMAL then 10 - unat digits else unat v)",
    goal_cases)
  case 1
  show ?case by simp
next
  case (2 v b digits)
  then have "unat digits < 10" by (simp add: pow10_long_def)
  then have "unat (digits + 1) = unat digits + 1"
    by (simp add: unat_word_ariths)
  with \<open>unat digits < 10\<close> 2 show ?case by simp
next
  case (3 v b digits)
  then have pos: "0 < unat v" by (simp add: word_greater_zero_iff unat_gt_0)
  from 3 have "1 \<le> base_bits b" by (cases b) simp_all
  then have "(2::nat) ^ 1 \<le> 2 ^ base_bits b" by (rule power_increasing) simp
  then have "unat v div 2 ^ base_bits b < unat v"
    using pos by (intro div_less_dividend) simp_all
  moreover have "unat (drop_bit (base_bits b) v) = unat v div 2 ^ base_bits b"
    unfolding unat_drop_bit_eq by (simp add: drop_bit_eq_div)
  ultimately show ?case using 3 by simp
qed

definition get_digits_long :: "c_ulong \<Rightarrow> base_t \<Rightarrow> uint8_t" where
  "get_digits_long v b = get_digits_long_loop v b 0"

function get_digits_long_long_loop :: "c_ulonglong \<Rightarrow> base_t \<Rightarrow> uint8_t \<Rightarrow> uint8_t" where
  "get_digits_long_long_loop v b digits =
     (if b = BASE_DECIMAL
      then (if unat digits < length pow10_long_long \<and> v \<ge> pow10_long_long ! unat digits
            then get_digits_long_long_loop v b (digits + 1) else digits)
      else (if v > 0 then get_digits_long_long_loop (drop_bit (base_bits b) v) b (digits + 1) else digits))"
  by pat_completeness auto
termination
proof (relation "measure (\<lambda>(v, b, digits). if b = BASE_DECIMAL then 20 - unat digits else unat v)",
    goal_cases)
  case 1
  show ?case by simp
next
  case (2 v b digits)
  then have "unat digits < 20" by (simp add: pow10_long_long_def)
  then have "unat (digits + 1) = unat digits + 1"
    by (simp add: unat_word_ariths)
  with \<open>unat digits < 20\<close> 2 show ?case by simp
next
  case (3 v b digits)
  then have pos: "0 < unat v" by (simp add: word_greater_zero_iff unat_gt_0)
  from 3 have "1 \<le> base_bits b" by (cases b) simp_all
  then have "(2::nat) ^ 1 \<le> 2 ^ base_bits b" by (rule power_increasing) simp
  then have "unat v div 2 ^ base_bits b < unat v"
    using pos by (intro div_less_dividend) simp_all
  moreover have "unat (drop_bit (base_bits b) v) = unat v div 2 ^ base_bits b"
    unfolding unat_drop_bit_eq by (simp add: drop_bit_eq_div)
  ultimately show ?case using 3 by simp
qed

definition get_digits_long_long :: "c_ulonglong \<Rightarrow> base_t \<Rightarrow> uint8_t" where
  "get_digits_long_long v b = get_digits_long_long_loop v b 0"

text \<open>
  The digit loops of \<^verbatim>\<open>ntoa_long\<close> and \<^verbatim>\<open>ntoa_long_long\<close> are the same text at two integer
  types; each is embedded once, for any word length, with the table as a parameter.
  The decimal loop: \<^verbatim>\<open>while (digit_count > 0) { digit_count--; l = pow10[digit_count];
  digit = value / l; value %= l; out(digit + '0'); idx++; }\<close>.
\<close>

function ntoa_decimal_loop :: "'a::len word list \<Rightarrow> 'p data_t \<Rightarrow> 'a word \<Rightarrow> 'p data_t" where
  "ntoa_decimal_loop tab data v =
     (if digit_count data > 0
      then ntoa_decimal_loop tab
             (data\<lparr>digit_count := digit_count data - 1,
                   ptr := out data
                            (char_of (unat (ucast (v div tab ! unat (digit_count data - 1)) :: uint8_t)
                                      + of_char (CHR ''0'')))
                            (ptr data),
                   idx := idx data + 1\<rparr>)
             (v mod tab ! unat (digit_count data - 1))
      else data)"
  by pat_completeness auto
termination
  by (relation "measure (\<lambda>(tab, data, v). unat (digit_count data))")
     (auto simp: unat_minus_one word_greater_zero_iff unat_gt_0)

text \<open>The character of one digit in a power-of-two base.\<close>

definition digit_char :: "uint16_t \<Rightarrow> uint8_t \<Rightarrow> char" where
  "digit_char f digit =
     (if digit < 10 then char_of (of_char (CHR ''0'') + unat digit)
      else char_of ((if tst f FLAGS_UPPERCASE then of_char (CHR ''A'') else of_char (CHR ''a''))
                    + unat digit - 10))"

text \<open>The loop \<^verbatim>\<open>for (; digit_count > 0; digit_count--) { digit = (value >> (digit_count-1) *
  base_bits[base]) & base_mask[base]; out(...); idx++; }\<close>.\<close>

function ntoa_shift_loop :: "'p data_t \<Rightarrow> 'a::len word \<Rightarrow> 'p data_t" where
  "ntoa_shift_loop data v =
     (if digit_count data > 0
      then ntoa_shift_loop
             (data\<lparr>ptr := out data
                            (digit_char (flags data)
                               (ucast (drop_bit ((unat (digit_count data) - 1) * base_bits (base data)) v
                                       AND base_mask (base data))))
                            (ptr data),
                   idx := idx data + 1,
                   digit_count := digit_count data - 1\<rparr>)
             v
      else data)"
  by pat_completeness auto
termination
  by (relation "measure (\<lambda>(data, v). unat (digit_count data))")
     (auto simp: unat_minus_one word_greater_zero_iff unat_gt_0)

text \<open>The trailing padding: \<^verbatim>\<open>while (data->width > 0) { out(' '); width--; }\<close>.\<close>

function pad_trailing :: "'p data_t \<Rightarrow> 'p data_t" where
  "pad_trailing data =
     (if width data > 0
      then pad_trailing (data\<lparr>ptr := out data (CHR '' '') (ptr data), width := width data - 1\<rparr>)
      else data)"
  by pat_completeness auto
termination
  by (relation "measure (\<lambda>data. unat (width data))")
     (auto simp: unat_minus_one word_greater_zero_iff unat_gt_0)

definition ntoa_long :: "'p data_t \<Rightarrow> c_ulong \<Rightarrow> 'p data_t" where
  "ntoa_long data v =
     (let data1 =
            (if \<not> tst (flags data) FLAGS_PRECISION \<or> v \<noteq> 0
             then (if v = 0 then data\<lparr>ptr := out data (CHR ''0'') (ptr data), idx := idx data + 1\<rparr>
                   else if base data = BASE_DECIMAL then ntoa_decimal_loop pow10_long data v
                   else ntoa_shift_loop data v)
             else data)
      in if tst (flags data1) FLAGS_LEFT then pad_trailing data1 else data1)"

definition ntoa_long_long :: "'p data_t \<Rightarrow> c_ulonglong \<Rightarrow> 'p data_t" where
  "ntoa_long_long data v =
     (let data1 =
            (if \<not> tst (flags data) FLAGS_PRECISION \<or> v \<noteq> 0
             then (if v = 0 then data\<lparr>ptr := out data (CHR ''0'') (ptr data), idx := idx data + 1\<rparr>
                   else if base data = BASE_DECIMAL then ntoa_decimal_loop pow10_long_long data v
                   else ntoa_shift_loop data v)
             else data)
      in if tst (flags data1) FLAGS_LEFT then pad_trailing data1 else data1)"

definition pre_format_long :: "'p data_t \<Rightarrow> c_ulong \<Rightarrow> bool \<Rightarrow> 'p data_t" where
  "pre_format_long data v negative =
     (let data1 = data\<lparr>digit_count := get_digits_long v (base data)\<rparr>;
          data2 = (if v = 0 then data1\<lparr>flags := flags data1 AND NOT FLAGS_HASH\<rparr> else data1)
      in if negative then data2\<lparr>flags := flags data2 OR FLAGS_NEGATIVE\<rparr> else data2)"

definition pre_format_long_long :: "'p data_t \<Rightarrow> c_ulonglong \<Rightarrow> bool \<Rightarrow> 'p data_t" where
  "pre_format_long_long data v negative =
     (let data1 = data\<lparr>digit_count := get_digits_long_long v (base data)\<rparr>;
          data2 = (if v = 0 then data1\<lparr>flags := flags data1 AND NOT FLAGS_HASH\<rparr> else data1)
      in if negative then data2\<lparr>flags := flags data2 OR FLAGS_NEGATIVE\<rparr> else data2)"

section \<open>String renderer\<close>

text \<open>
  The loop \<^verbatim>\<open>while (l++ < data->width) { out(' '); idx++; }\<close> of \<^verbatim>\<open>print_string\<close> and of the
  \<^verbatim>\<open>%c\<close> conversion. The counter \<^verbatim>\<open>l\<close> is not read after the loop, so only the data is
  returned; it stays below 256 while the loop runs, so it is a natural number here.
\<close>

function pad_field :: "nat \<Rightarrow> 'p data_t \<Rightarrow> 'p data_t" where
  "pad_field l data =
     (if l < unat (width data) then pad_field (l + 1) (do_out data (CHR '' '')) else data)"
  by pat_completeness auto
termination
  by (relation "measure (\<lambda>(l, data). unat (width data) - l)") (auto simp: do_out_def)

text \<open>The loop \<^verbatim>\<open>while ((*p != 0) && (!(flags & FLAGS_PRECISION) || data->precision--))\<close>:
  the decrement is evaluated only when the first two tests let it.\<close>

fun print_string_loop :: "'p data_t \<Rightarrow> char list \<Rightarrow> 'p data_t" where
  "print_string_loop data [] = data"
| "print_string_loop data (c # p) =
     (if c = NUL then data
      else if \<not> tst (flags data) FLAGS_PRECISION then print_string_loop (do_out data c) p
      else if precision data \<noteq> 0
      then print_string_loop (do_out (data\<lparr>precision := precision data - 1\<rparr>) c) p
      else data\<lparr>precision := precision data - 1\<rparr>)"

definition print_string :: "'p data_t \<Rightarrow> char list \<Rightarrow> 'p data_t" where
  "print_string data p =
     (let l0 = strnlen_s p (if precision data \<noteq> 0 then unat (precision data) else 2 ^ 32 - 1);
          l = (if tst (flags data) FLAGS_PRECISION
               then (if l0 < unat (precision data) then l0 else unat (precision data)) else l0);
          data1 = (if \<not> tst (flags data) FLAGS_LEFT then pad_field l data else data);
          data2 = print_string_loop data1 p
      in if tst (flags data2) FLAGS_LEFT then pad_field l data2 else data2)"

section \<open>The interpreter: \<^verbatim>\<open>format_out\<close>\<close>

text \<open>
  The format is given by the bytes before its terminator. The scan position is an index:
  position \<open>length format\<close> holds the terminating NUL, and a read at any later position is
  a read outside the string, which the embedding reports as \<open>ReadPastTerminator\<close>.
  The variadic arguments are a list of typed values; \<^verbatim>\<open>va_arg\<close> at a type the next
  argument does not have (or with no argument left) is undefined in C and reported as
  \<open>BadVaArg\<close>.
\<close>

datatype error = ReadPastTerminator | BadVaArg

datatype arg =
    ArgInt c_uint
  | ArgLong c_ulong
  | ArgLongLong c_ulonglong
  | ArgStr "char list"
  | ArgPtr "32 word"

definition peek :: "char list \<Rightarrow> nat \<Rightarrow> char option" where
  "peek format p =
     (if p < length format then Some (format ! p)
      else if p = length format then Some NUL
      else None)"

definition va_arg_int :: "arg list \<Rightarrow> error + (c_uint \<times> arg list)" where
  "va_arg_int va = (case va of ArgInt v # rest \<Rightarrow> Inr (v, rest) | _ \<Rightarrow> Inl BadVaArg)"

definition va_arg_long :: "arg list \<Rightarrow> error + (c_ulong \<times> arg list)" where
  "va_arg_long va = (case va of ArgLong v # rest \<Rightarrow> Inr (v, rest) | _ \<Rightarrow> Inl BadVaArg)"

definition va_arg_long_long :: "arg list \<Rightarrow> error + (c_ulonglong \<times> arg list)" where
  "va_arg_long_long va = (case va of ArgLongLong v # rest \<Rightarrow> Inr (v, rest) | _ \<Rightarrow> Inl BadVaArg)"

definition va_arg_str :: "arg list \<Rightarrow> error + (char list \<times> arg list)" where
  "va_arg_str va = (case va of ArgStr v # rest \<Rightarrow> Inr (v, rest) | _ \<Rightarrow> Inl BadVaArg)"

definition va_arg_ptr :: "arg list \<Rightarrow> error + (32 word \<times> arg list)" where
  "va_arg_ptr va = (case va of ArgPtr v # rest \<Rightarrow> Inr (v, rest) | _ \<Rightarrow> Inl BadVaArg)"

text \<open>\<^verbatim>\<open>atoi\<close>, with the local \<^verbatim>\<open>i\<close> as an argument; it returns the new position as well.\<close>

function atoi_loop :: "char list \<Rightarrow> nat \<Rightarrow> c_uint \<Rightarrow> error + (nat \<times> c_uint)" where
  "atoi_loop format p i =
     (case peek format p of
        None \<Rightarrow> Inl ReadPastTerminator
      | Some c \<Rightarrow>
          if is_digit c
          then atoi_loop format (p + 1) (i * 10 + of_nat (of_char c - of_char (CHR ''0'')))
          else Inr (p, i))"
  by pat_completeness auto
termination
  by (relation "measure (\<lambda>(format, p, i). length format - p)")
     (auto simp: peek_def is_digit_def NUL_def split: if_splits)

definition atoi :: "char list \<Rightarrow> nat \<Rightarrow> error + (nat \<times> c_uint)" where
  "atoi format p = atoi_loop format p 0"

text \<open>The flag loop \<^verbatim>\<open>do { switch (*format) ... } while (n)\<close>.\<close>

function eval_flags :: "char list \<Rightarrow> nat \<Rightarrow> uint16_t \<Rightarrow> error + (nat \<times> uint16_t)" where
  "eval_flags format p f =
     (case peek format p of
        None \<Rightarrow> Inl ReadPastTerminator
      | Some c \<Rightarrow>
          if c = CHR ''0'' then eval_flags format (p + 1) (f OR FLAGS_ZEROPAD)
          else if c = CHR ''-'' then eval_flags format (p + 1) (f OR FLAGS_LEFT)
          else if c = CHR ''+'' then eval_flags format (p + 1) (f OR FLAGS_PLUS)
          else if c = CHR '' '' then eval_flags format (p + 1) (f OR FLAGS_SPACE)
          else if c = CHR ''#'' then eval_flags format (p + 1) (f OR FLAGS_HASH)
          else Inr (p, f))"
  by pat_completeness auto
termination
  by (relation "measure (\<lambda>(format, p, f). length format - p)")
     (auto simp: peek_def NUL_def split: if_splits)

text \<open>The width field. The assignments to \<^verbatim>\<open>data.width\<close> narrow an \<^verbatim>\<open>unsigned int\<close> to
  \<^verbatim>\<open>uint8_t\<close>.\<close>

definition eval_width ::
  "char list \<Rightarrow> nat \<Rightarrow> 'p data_t \<Rightarrow> arg list \<Rightarrow> error + (nat \<times> 'p data_t \<times> arg list)" where
  "eval_width format p data0 va =
     (let data = data0\<lparr>width := 0\<rparr> in
      case peek format p of
        None \<Rightarrow> Inl ReadPastTerminator
      | Some c \<Rightarrow>
          if is_digit c
          then (case atoi format p of
                  Inl e \<Rightarrow> Inl e
                | Inr (p', i) \<Rightarrow> Inr (p', data\<lparr>width := ucast i\<rparr>, va))
          else if c = CHR ''*''
          then (case va_arg_int va of
                  Inl e \<Rightarrow> Inl e
                | Inr (w, va') \<Rightarrow>
                    if w <s 0
                    then Inr (p + 1, data\<lparr>flags := flags data OR FLAGS_LEFT, width := ucast (- w)\<rparr>, va')
                    else Inr (p + 1, data\<lparr>width := ucast w\<rparr>, va'))
          else Inr (p, data, va))"

definition eval_precision ::
  "char list \<Rightarrow> nat \<Rightarrow> 'p data_t \<Rightarrow> arg list \<Rightarrow> error + (nat \<times> 'p data_t \<times> arg list)" where
  "eval_precision format p data0 va =
     (let data = data0\<lparr>precision := 0\<rparr> in
      case peek format p of
        None \<Rightarrow> Inl ReadPastTerminator
      | Some c \<Rightarrow>
          if c = CHR ''.''
          then (let data1 = data\<lparr>flags := flags data OR FLAGS_PRECISION\<rparr> in
                case peek format (p + 1) of
                  None \<Rightarrow> Inl ReadPastTerminator
                | Some c1 \<Rightarrow>
                    if is_digit c1
                    then (case atoi format (p + 1) of
                            Inl e \<Rightarrow> Inl e
                          | Inr (p', i) \<Rightarrow> Inr (p', data1\<lparr>precision := ucast i\<rparr>, va))
                    else if c1 = CHR ''*''
                    then (case va_arg_int va of
                            Inl e \<Rightarrow> Inl e
                          | Inr (prec, va') \<Rightarrow>
                              Inr (p + 2,
                                   data1\<lparr>precision := (if 0 <s prec then ucast prec else 0)\<rparr>, va'))
                    else Inr (p + 1, data1, va))
          else Inr (p, data, va))"

text \<open>The length field; \<^verbatim>\<open>ptrdiff_t\<close> and \<^verbatim>\<open>size_t\<close> have the size of \<^verbatim>\<open>long\<close>, \<^verbatim>\<open>intmax_t\<close>
  that of \<^verbatim>\<open>long long\<close>.\<close>

definition eval_length :: "char list \<Rightarrow> nat \<Rightarrow> uint16_t \<Rightarrow> error + (nat \<times> uint16_t)" where
  "eval_length format p f =
     (case peek format p of
        None \<Rightarrow> Inl ReadPastTerminator
      | Some c \<Rightarrow>
          if c = CHR ''l''
          then (case peek format (p + 1) of
                  None \<Rightarrow> Inl ReadPastTerminator
                | Some c1 \<Rightarrow>
                    if c1 = CHR ''l'' then Inr (p + 2, f OR FLAGS_LONG OR FLAGS_LONG_LONG)
                    else Inr (p + 1, f OR FLAGS_LONG))
          else if c = CHR ''h''
          then (case peek format (p + 1) of
                  None \<Rightarrow> Inl ReadPastTerminator
                | Some c1 \<Rightarrow>
                    if c1 = CHR ''h'' then Inr (p + 2, f OR FLAGS_SHORT OR FLAGS_CHAR)
                    else Inr (p + 1, f OR FLAGS_SHORT))
          else if c = CHR ''t'' then Inr (p + 1, f OR FLAGS_LONG)
          else if c = CHR ''j'' then Inr (p + 1, f OR FLAGS_LONG_LONG)
          else if c = CHR ''z'' then Inr (p + 1, f OR FLAGS_LONG)
          else Inr (p, f))"

text \<open>
  The integer conversions \<^verbatim>\<open>d i u x X o b\<close> (the first case of the specifier switch), for
  the conversion character \<open>c\<close>, in two parts: lines 623 to 657 set the base and clear
  flags; lines 659 to 713 fetch the argument and convert it. The cast \<^verbatim>\<open>(char)\<close>
  zero-extends (plain \<^verbatim>\<open>char\<close> is unsigned on the platform), \<^verbatim>\<open>(short int)\<close> sign-extends.
\<close>

definition convert_flags :: "char \<Rightarrow> 'p data_t \<Rightarrow> 'p data_t" where
  "convert_flags c data0 =
     (let data1 = (if c = CHR ''x'' \<or> c = CHR ''X'' then data0\<lparr>base := BASE_HEX\<rparr>
                   else if c = CHR ''o'' then data0\<lparr>base := BASE_OCTAL\<rparr>
                   else if c = CHR ''b'' then data0\<lparr>base := BASE_BINARY\<rparr>
                   else data0\<lparr>base := BASE_DECIMAL, flags := flags data0 AND NOT FLAGS_HASH\<rparr>);
          data2 = (if c = CHR ''X'' then data1\<lparr>flags := flags data1 OR FLAGS_UPPERCASE\<rparr> else data1);
          data3 = (if c \<noteq> CHR ''i'' \<and> c \<noteq> CHR ''d''
                   then data2\<lparr>flags := flags data2 AND NOT (FLAGS_PLUS OR FLAGS_SPACE)\<rparr> else data2)
      in if tst (flags data3) FLAGS_PRECISION
         then data3\<lparr>flags := flags data3 AND NOT FLAGS_ZEROPAD\<rparr> else data3)"

definition convert_value :: "char \<Rightarrow> 'p data_t \<Rightarrow> arg list \<Rightarrow> error + ('p data_t \<times> arg list)" where
  "convert_value c data va =
     (if c = CHR ''i'' \<or> c = CHR ''d''
         then (if tst (flags data) FLAGS_LONG_LONG
               then (case va_arg_long_long va of
                       Inl e \<Rightarrow> Inl e
                     | Inr (v, va') \<Rightarrow>
                         Inr (ntoa_long_long (ntoa_format (pre_format_long_long data (ABS v) (v <s 0))) (ABS v), va'))
               else if tst (flags data) FLAGS_LONG
               then (case va_arg_long va of
                       Inl e \<Rightarrow> Inl e
                     | Inr (v, va') \<Rightarrow>
                         Inr (ntoa_long (ntoa_format (pre_format_long data (ABS v) (v <s 0))) (ABS v), va'))
               else (case va_arg_int va of
                       Inl e \<Rightarrow> Inl e
                     | Inr (a, va') \<Rightarrow>
                         (let v = (if tst (flags data) FLAGS_CHAR then ucast (ucast a :: 8 word)
                                   else if tst (flags data) FLAGS_SHORT then scast (ucast a :: 16 word)
                                   else a)
                          in Inr (ntoa_long (ntoa_format (pre_format_long data (ABS v) (v <s 0))) (ABS v), va'))))
         else (if tst (flags data) FLAGS_LONG_LONG
               then (case va_arg_long_long va of
                       Inl e \<Rightarrow> Inl e
                     | Inr (v, va') \<Rightarrow>
                         Inr (ntoa_long_long (ntoa_format (pre_format_long_long data v False)) v, va'))
               else if tst (flags data) FLAGS_LONG
               then (case va_arg_long va of
                       Inl e \<Rightarrow> Inl e
                     | Inr (v, va') \<Rightarrow>
                         Inr (ntoa_long (ntoa_format (pre_format_long data v False)) v, va'))
               else (case va_arg_int va of
                       Inl e \<Rightarrow> Inl e
                     | Inr (a, va') \<Rightarrow>
                         (let v = (if tst (flags data) FLAGS_CHAR then ucast (ucast a :: 8 word)
                                   else if tst (flags data) FLAGS_SHORT then ucast (ucast a :: 16 word)
                                   else a)
                          in Inr (ntoa_long (ntoa_format (pre_format_long data v False)) v, va')))))"

definition convert_integer :: "char \<Rightarrow> 'p data_t \<Rightarrow> arg list \<Rightarrow> error + ('p data_t \<times> arg list)" where
  "convert_integer c data va = convert_value c (convert_flags c data) va"

text \<open>The specifier switch. Every case ends with \<^verbatim>\<open>format++\<close>.\<close>

definition eval_specifier ::
  "char list \<Rightarrow> nat \<Rightarrow> 'p data_t \<Rightarrow> arg list \<Rightarrow> error + (nat \<times> 'p data_t \<times> arg list)" where
  "eval_specifier format p data va =
     (case peek format p of
        None \<Rightarrow> Inl ReadPastTerminator
      | Some c \<Rightarrow>
          if c = CHR ''d'' \<or> c = CHR ''i'' \<or> c = CHR ''u'' \<or> c = CHR ''x'' \<or> c = CHR ''X''
             \<or> c = CHR ''o'' \<or> c = CHR ''b''
          then (case convert_integer c data va of
                  Inl e \<Rightarrow> Inl e
                | Inr (data', va') \<Rightarrow> Inr (p + 1, data', va'))
          else if c = CHR ''c''
          then (case va_arg_int va of
                  Inl e \<Rightarrow> Inl e
                | Inr (a, va') \<Rightarrow>
                    (let data1 = (if \<not> tst (flags data) FLAGS_LEFT then pad_field 1 data else data);
                         data2 = do_out data1 (char_of (unat a))
                     in Inr (p + 1, if tst (flags data2) FLAGS_LEFT then pad_field 1 data2 else data2, va')))
          else if c = CHR ''s''
          then (case va_arg_str va of
                  Inl e \<Rightarrow> Inl e
                | Inr (str, va') \<Rightarrow> Inr (p + 1, print_string data str, va'))
          else if c = CHR ''p''
          then (let data1 = data\<lparr>width := 8,
                                  flags := flags data OR (FLAGS_ZEROPAD OR FLAGS_UPPERCASE),
                                  base := BASE_HEX\<rparr>
                in case va_arg_ptr va of
                     Inl e \<Rightarrow> Inl e
                   | Inr (v, va') \<Rightarrow>
                       Inr (p + 1, ntoa_long (ntoa_format (pre_format_long data1 v False)) v, va'))
          else if c = CHR ''%'' then Inr (p + 1, do_out data (CHR ''%''), va)
          else Inr (p + 1, do_out data c, va))"

text \<open>One directive, from the position after its \<^verbatim>\<open>%\<close>: first the flags, width,
  precision and length fields, then the specifier.\<close>

definition eval_fields ::
  "char list \<Rightarrow> nat \<Rightarrow> 'p data_t \<Rightarrow> arg list \<Rightarrow> error + (nat \<times> 'p data_t \<times> arg list)" where
  "eval_fields format p data va =
     (case eval_flags format p 0 of
        Inl e \<Rightarrow> Inl e
      | Inr (p1, f) \<Rightarrow>
          (case eval_width format p1 (data\<lparr>flags := f\<rparr>) va of
             Inl e \<Rightarrow> Inl e
           | Inr (p2, data2, va2) \<Rightarrow>
               (case eval_precision format p2 data2 va2 of
                  Inl e \<Rightarrow> Inl e
                | Inr (p3, data3, va3) \<Rightarrow>
                    (case eval_length format p3 (flags data3) of
                       Inl e \<Rightarrow> Inl e
                     | Inr (p4, f4) \<Rightarrow> Inr (p4, data3\<lparr>flags := f4\<rparr>, va3)))))"

definition directive ::
  "char list \<Rightarrow> nat \<Rightarrow> 'p data_t \<Rightarrow> arg list \<Rightarrow> error + (nat \<times> 'p data_t \<times> arg list)" where
  "directive format p data va =
     (case eval_fields format p data va of
        Inl e \<Rightarrow> Inl e
      | Inr (p4, data4, va4) \<Rightarrow> eval_specifier format p4 data4 va4)"

text \<open>The loops are unfolded one step at a time in the proofs below.\<close>

declare pad_spaces.simps [simp del] pad_zeros.simps [simp del] pad_precision.simps [simp del] get_digits_long_loop.simps [simp del] get_digits_long_long_loop.simps [simp del] ntoa_decimal_loop.simps [simp del] ntoa_shift_loop.simps [simp del] pad_trailing.simps [simp del] pad_field.simps [simp del] atoi_loop.simps [simp del] eval_flags.simps [simp del]

lemma atoi_loop_advances: "atoi_loop format p i = Inr (p', r) \<Longrightarrow> p \<le> p'"
proof (induction format p i rule: atoi_loop.induct)
  case (1 format p i)
  from "1.prems" obtain c where c: "peek format p = Some c"
    by (subst (asm) atoi_loop.simps) (auto split: option.splits)
  show ?case
  proof (cases "is_digit c")
    case True
    with c "1.prems"
    have "atoi_loop format (p + 1) (i * 10 + of_nat (of_char c - of_char (CHR ''0''))) = Inr (p', r)"
      by (subst (asm) atoi_loop.simps) simp
    with "1.IH" [OF c True] show ?thesis by simp
  next
    case False
    with c "1.prems" show ?thesis
      by (subst (asm) atoi_loop.simps) simp
  qed
qed

lemma eval_flags_advances: "eval_flags format p f = Inr (p', f') \<Longrightarrow> p \<le> p'"
proof (induction format p f rule: eval_flags.induct)
  case (1 format p f)
  from "1.prems" obtain c where c: "peek format p = Some c"
    by (subst (asm) eval_flags.simps) (auto split: option.splits)
  from "1.prems" c have
    "(if c = CHR ''0'' then eval_flags format (p + 1) (f OR FLAGS_ZEROPAD)
      else if c = CHR ''-'' then eval_flags format (p + 1) (f OR FLAGS_LEFT)
      else if c = CHR ''+'' then eval_flags format (p + 1) (f OR FLAGS_PLUS)
      else if c = CHR '' '' then eval_flags format (p + 1) (f OR FLAGS_SPACE)
      else if c = CHR ''#'' then eval_flags format (p + 1) (f OR FLAGS_HASH)
      else Inr (p, f)) = Inr (p', f')"
    by (subst (asm) eval_flags.simps) simp
  with "1.IH" [OF c] show ?case
    by (auto split: if_splits)
qed

lemma eval_width_advances: "eval_width format p data va = Inr (p', data', va') \<Longrightarrow> p \<le> p'"
  by (auto simp: eval_width_def atoi_def Let_def split: option.splits if_splits sum.splits
      dest: atoi_loop_advances)

lemma eval_precision_advances: "eval_precision format p data va = Inr (p', data', va') \<Longrightarrow> p \<le> p'"
  by (auto simp: eval_precision_def atoi_def Let_def split: option.splits if_splits sum.splits
      dest: atoi_loop_advances)

lemma eval_length_advances: "eval_length format p f = Inr (p', f') \<Longrightarrow> p \<le> p'"
  by (auto simp: eval_length_def split: option.splits if_splits)

lemma eval_specifier_advances: "eval_specifier format p data va = Inr (p', data', va') \<Longrightarrow> p' = p + 1"
  by (auto simp: eval_specifier_def Let_def split: option.splits if_splits sum.splits)

lemma directive_advances:
  assumes "directive format p data va = Inr (p', data', va')"
  shows "p < p'"
proof -
  from assms obtain p1 f p2 data2 va2 p3 data3 va3 p4 f4 where
    a: "eval_flags format p 0 = Inr (p1, f)"
    and b: "eval_width format p1 (data\<lparr>flags := f\<rparr>) va = Inr (p2, data2, va2)"
    and c: "eval_precision format p2 data2 va2 = Inr (p3, data3, va3)"
    and d: "eval_length format p3 (flags data3) = Inr (p4, f4)"
    and e: "eval_specifier format p4 (data3\<lparr>flags := f4\<rparr>) va3 = Inr (p', data', va')"
    by (auto simp: directive_def eval_fields_def split: sum.splits)
  from eval_flags_advances [OF a] eval_width_advances [OF b] eval_precision_advances [OF c]
    eval_length_advances [OF d] eval_specifier_advances [OF e]
  show ?thesis by simp
qed

text \<open>The driver loop \<^verbatim>\<open>while (*format)\<close>.\<close>

function format_loop :: "char list \<Rightarrow> nat \<Rightarrow> 'p data_t \<Rightarrow> arg list \<Rightarrow> error + 'p data_t" where
  "format_loop format p data va =
     (case peek format p of
        None \<Rightarrow> Inl ReadPastTerminator
      | Some c \<Rightarrow>
          if c = NUL then Inr data
          else if c \<noteq> CHR ''%'' then format_loop format (p + 1) (do_out data c) va
          else (case directive format (p + 1) data va of
                  Inl e \<Rightarrow> Inl e
                | Inr (p', data', va') \<Rightarrow> format_loop format p' data' va'))"
  by pat_completeness auto
termination
proof (relation "measure (\<lambda>(format, p, data, va). length format + 2 - p)", goal_cases)
  case 1
  show ?case by simp
next
  case (2 format p data va c)
  then show ?case by (simp add: peek_def split: if_splits)
next
  case (3 format p data va c r p' rest data' va')
  then have "p + 1 < p'" using directive_advances [of format "p + 1" data va p' data' va'] by simp
  moreover from 3 have "p \<le> length format" by (simp add: peek_def split: if_splits)
  ultimately show ?case by simp
qed

declare format_loop.simps [simp del]

text \<open>
  \<^verbatim>\<open>format_out\<close> returns \<^verbatim>\<open>data.idx\<close>; the embedding returns the final context of the sink
  with it. The fields of \<^verbatim>\<open>data\<close> that C leaves uninitialised are assigned by every
  directive before they are read.
\<close>

definition format_out ::
  "(char \<Rightarrow> 'p \<Rightarrow> 'p) \<Rightarrow> 'p \<Rightarrow> char list \<Rightarrow> arg list \<Rightarrow> error + (uint8_t \<times> 'p)" where
  "format_out out_fct p format va =
     (case format_loop format 0
             \<lparr>out = out_fct, ptr = p, flags = 0, idx = 0, width = 0, precision = 0,
              base = BASE_BINARY, digit_count = 0\<rparr> va of
        Inl e \<Rightarrow> Inl e
      | Inr data \<Rightarrow> Inr (idx data, ptr data))"

section \<open>Entry points\<close>

text \<open>The entry points \<^verbatim>\<open>printf_\<close>, \<^verbatim>\<open>vprintf_\<close>, \<^verbatim>\<open>sprintf_\<close>, \<^verbatim>\<open>snprintf_\<close> and \<^verbatim>\<open>vsnprintf_\<close>; a
  constant cannot end in an underscore, so each is named with a final \<open>c\<close>.\<close>

definition printf_c :: "char list \<Rightarrow> arg list \<Rightarrow> device \<Rightarrow> error + (int \<times> device)" where
  "printf_c format va dev =
     (case format_out out_char dev format va of
        Inl e \<Rightarrow> Inl e
      | Inr (ret, dev') \<Rightarrow> Inr (uint ret, dev'))"

definition vprintf_c :: "char list \<Rightarrow> arg list \<Rightarrow> device \<Rightarrow> error + (int \<times> device)" where
  "vprintf_c format va dev =
     (case format_out out_char dev format va of
        Inl e \<Rightarrow> Inl e
      | Inr (ret, dev') \<Rightarrow> Inr (uint ret, dev'))"

definition sprintf_c :: "addr \<Rightarrow> char list \<Rightarrow> arg list \<Rightarrow> heap \<Rightarrow> error + (int \<times> heap)" where
  "sprintf_c buf format va h =
     (case format_out out_sprintf (h, \<lparr>buffer = buf, maxlen = - 1\<rparr>) format va of
        Inl e \<Rightarrow> Inl e
      | Inr (ret, h', data) \<Rightarrow> Inr (uint ret, h'(buffer data := NUL)))"

definition snprintf_c :: "addr \<Rightarrow> size_t \<Rightarrow> char list \<Rightarrow> arg list \<Rightarrow> heap \<Rightarrow> error + (int \<times> heap)" where
  "snprintf_c buf count format va h =
     (case format_out out_sprintf (h, \<lparr>buffer = buf, maxlen = count\<rparr>) format va of
        Inl e \<Rightarrow> Inl e
      | Inr (ret, h', data) \<Rightarrow>
          Inr (uint ret,
               if buf \<noteq> NULL \<and> count > 0
               then h'((if maxlen data \<noteq> 0 then buffer data else buffer data - 1) := NUL)
               else h'))"

definition vsnprintf_c :: "addr \<Rightarrow> size_t \<Rightarrow> char list \<Rightarrow> arg list \<Rightarrow> heap \<Rightarrow> error + (int \<times> heap)" where
  "vsnprintf_c buf count format va h =
     (case format_out out_sprintf (h, \<lparr>buffer = buf, maxlen = count\<rparr>) format va of
        Inl e \<Rightarrow> Inl e
      | Inr (ret, h', data) \<Rightarrow>
          Inr (uint ret,
               if buf \<noteq> NULL \<and> count > 0
               then h'((if maxlen data \<noteq> 0 then buffer data else buffer data - 1) := NUL)
               else h'))"

section \<open>Summaries of the loops\<close>

lemma unat_pos_Suc: "(w :: 'a::len word) > 0 \<Longrightarrow> unat w = Suc (unat (w - 1))"
  by (simp add: unat_minus_one word_greater_zero_iff unat_gt_0)

lemma pad_spaces_eq:
  "pad_spaces d = d\<lparr>ptr := fold (out d) (replicate (unat (width d)) (CHR '' '')) (ptr d),
       idx := idx d + width d, width := 0\<rparr>"
proof (induction d rule: pad_spaces.induct)
  case (1 d)
  show ?case
  proof (cases "width d > 0")
    case True
    then show ?thesis
      by (subst pad_spaces.simps) (simp add: "1.IH" unat_pos_Suc [of "width d"])
  next
    case False
    then have "width d = 0" by (simp add: word_greater_zero_iff)
    then show ?thesis by (subst pad_spaces.simps) simp
  qed
qed

lemma pad_zeros_eq:
  "pad_zeros d = (if tst (flags d) FLAGS_ZEROPAD
     then d\<lparr>ptr := fold (out d) (replicate (unat (width d)) (CHR ''0'')) (ptr d),
       idx := idx d + width d, width := 0\<rparr> else d)"
proof (induction d rule: pad_zeros.induct)
  case (1 d)
  show ?case
  proof (cases "tst (flags d) FLAGS_ZEROPAD \<and> width d > 0")
    case True
    then show ?thesis
      by (subst pad_zeros.simps) (simp add: "1.IH" unat_pos_Suc [of "width d"])
  next
    case False
    then have "\<not> tst (flags d) FLAGS_ZEROPAD \<or> width d = 0" by (auto simp add: word_greater_zero_iff)
    then show ?thesis by (subst pad_zeros.simps) auto
  qed
qed

lemma pad_precision_eq:
  "pad_precision d = d\<lparr>ptr := fold (out d) (replicate (unat (precision d)) (CHR ''0'')) (ptr d),
       idx := idx d + precision d, precision := 0\<rparr>"
proof (induction d rule: pad_precision.induct)
  case (1 d)
  show ?case
  proof (cases "precision d > 0")
    case True
    then show ?thesis
      by (subst pad_precision.simps) (simp add: "1.IH" unat_pos_Suc [of "precision d"])
  next
    case False
    then have "precision d = 0" by (simp add: word_greater_zero_iff)
    then show ?thesis by (subst pad_precision.simps) simp
  qed
qed

lemma pad_trailing_eq:
  "pad_trailing d = d\<lparr>ptr := fold (out d) (replicate (unat (width d)) (CHR '' '')) (ptr d), width := 0\<rparr>"
proof (induction d rule: pad_trailing.induct)
  case (1 d)
  show ?case
  proof (cases "width d > 0")
    case True
    then show ?thesis
      by (subst pad_trailing.simps) (simp add: "1.IH" unat_pos_Suc [of "width d"])
  next
    case False
    then have "width d = 0" by (simp add: word_greater_zero_iff)
    then show ?thesis by (subst pad_trailing.simps) simp
  qed
qed

lemma pad_field_eq:
  "pad_field l d = d\<lparr>ptr := fold (out d) (replicate (unat (width d) - l) (CHR '' '')) (ptr d),
       idx := idx d + of_nat (unat (width d) - l)\<rparr>"
proof (induction l d rule: pad_field.induct)
  case (1 l d)
  show ?case
  proof (cases "l < unat (width d)")
    case True
    then have e: "unat (width d) - l = Suc (unat (width d) - (l + 1))" by simp
    have "pad_field l d = pad_field (l + 1) (do_out d (CHR '' ''))"
      using True by (subst pad_field.simps) simp
    also note "1.IH" [OF True]
    also have "(do_out d (CHR '' ''))\<lparr>ptr := fold (out (do_out d (CHR '' '')))
            (replicate (unat (width (do_out d (CHR '' ''))) - (l + 1)) (CHR '' ''))
            (ptr (do_out d (CHR '' ''))),
          idx := idx (do_out d (CHR '' '')) + of_nat (unat (width (do_out d (CHR '' ''))) - (l + 1))\<rparr>
        = d\<lparr>ptr := fold (out d) (replicate (unat (width d) - l) (CHR '' '')) (ptr d),
            idx := idx d + of_nat (unat (width d) - l)\<rparr>"
      unfolding e by (simp add: do_out_def del: of_nat_diff)
    finally show ?thesis .
  next
    case False
    then show ?thesis by (subst pad_field.simps) simp
  qed
qed


fun decimal_chars :: "'a::len word list \<Rightarrow> nat \<Rightarrow> 'a word \<Rightarrow> char list" where
  "decimal_chars tab 0 v = []"
| "decimal_chars tab (Suc n) v =
     char_of (unat (ucast (v div tab ! n) :: uint8_t) + of_char (CHR ''0''))
       # decimal_chars tab n (v mod tab ! n)"

fun shift_chars :: "uint16_t \<Rightarrow> base_t \<Rightarrow> nat \<Rightarrow> 'a::len word \<Rightarrow> char list" where
  "shift_chars f b 0 v = []"
| "shift_chars f b (Suc n) v =
     digit_char f (ucast (drop_bit (n * base_bits b) v AND base_mask b)) # shift_chars f b n v"

lemma ntoa_decimal_loop_eq:
  "ntoa_decimal_loop tab d v =
     d\<lparr>digit_count := 0,
       ptr := fold (out d) (decimal_chars tab (unat (digit_count d)) v) (ptr d),
       idx := idx d + digit_count d\<rparr>"
proof (induction tab d v rule: ntoa_decimal_loop.induct)
  case (1 tab d v)
  show ?case
  proof (cases "digit_count d > 0")
    case True
    then show ?thesis
      by (subst ntoa_decimal_loop.simps)
         (simp only: if_True "1.IH" [OF True], simp add: unat_pos_Suc [of "digit_count d"])
  next
    case False
    then have "digit_count d = 0" by (simp add: word_greater_zero_iff)
    then show ?thesis by (subst ntoa_decimal_loop.simps) simp
  qed
qed

lemma ntoa_shift_loop_eq:
  "ntoa_shift_loop d v =
     d\<lparr>ptr := fold (out d) (shift_chars (flags d) (base d) (unat (digit_count d)) v) (ptr d),
       idx := idx d + digit_count d,
       digit_count := 0\<rparr>"
proof (induction d v rule: ntoa_shift_loop.induct)
  case (1 d v)
  show ?case
  proof (cases "digit_count d > 0")
    case True
    then show ?thesis
      by (subst ntoa_shift_loop.simps)
         (simp only: if_True "1.IH" [OF True], simp add: unat_pos_Suc [of "digit_count d"])
  next
    case False
    then have "digit_count d = 0" by (simp add: word_greater_zero_iff)
    then show ?thesis by (subst ntoa_shift_loop.simps) simp
  qed
qed

section \<open>The sink is a parameter\<close>

text \<open>
  The interpreter never reads the context of the sink: running it on any sink is running
  it on the sink that records the characters, and feeding the record to the sink.
\<close>

definition out_trace :: "char \<Rightarrow> char list \<Rightarrow> char list" where
  "out_trace c cs = cs @ [c]"

definition with_sink :: "(char \<Rightarrow> 'p \<Rightarrow> 'p) \<Rightarrow> 'p \<Rightarrow> char list data_t \<Rightarrow> 'p data_t" where
  "with_sink f p t =
     \<lparr>out = f, ptr = fold f (ptr t) p, flags = flags t, idx = idx t, width = width t,
      precision = precision t, base = base t, digit_count = digit_count t\<rparr>"

definition traced :: "char list data_t \<Rightarrow> bool" where
  "traced t = (out t = out_trace)"

lemma fold_out_trace: "fold out_trace cs l = l @ cs"
  by (induction cs arbitrary: l) (simp_all add: out_trace_def)

lemma with_sink_sel [simp]:
  "out (with_sink f p t) = f"
  "ptr (with_sink f p t) = fold f (ptr t) p"
  "flags (with_sink f p t) = flags t"
  "idx (with_sink f p t) = idx t"
  "width (with_sink f p t) = width t"
  "precision (with_sink f p t) = precision t"
  "base (with_sink f p t) = base t"
  "digit_count (with_sink f p t) = digit_count t"
  by (simp_all add: with_sink_def)

lemma with_sink_upd [simp]:
  "(with_sink f p t)\<lparr>flags := a\<rparr> = with_sink f p (t\<lparr>flags := a\<rparr>)"
  "(with_sink f p t)\<lparr>idx := b\<rparr> = with_sink f p (t\<lparr>idx := b\<rparr>)"
  "(with_sink f p t)\<lparr>width := b\<rparr> = with_sink f p (t\<lparr>width := b\<rparr>)"
  "(with_sink f p t)\<lparr>precision := b\<rparr> = with_sink f p (t\<lparr>precision := b\<rparr>)"
  "(with_sink f p t)\<lparr>base := c\<rparr> = with_sink f p (t\<lparr>base := c\<rparr>)"
  "(with_sink f p t)\<lparr>digit_count := b\<rparr> = with_sink f p (t\<lparr>digit_count := b\<rparr>)"
  "(with_sink f p t)\<lparr>ptr := fold f l p\<rparr> = with_sink f p (t\<lparr>ptr := l\<rparr>)"
  by (simp_all add: with_sink_def)

lemma fold_fold: "fold f cs (fold f l p) = fold f (l @ cs) p"
  by simp

lemma fold_step: "f c (fold f l p) = fold f (l @ [c]) p"
  by simp

lemma traced_upd [simp]:
  "traced (t\<lparr>flags := a\<rparr>) = traced t"
  "traced (t\<lparr>idx := b\<rparr>) = traced t"
  "traced (t\<lparr>width := b\<rparr>) = traced t"
  "traced (t\<lparr>precision := b\<rparr>) = traced t"
  "traced (t\<lparr>base := c\<rparr>) = traced t"
  "traced (t\<lparr>digit_count := b\<rparr>) = traced t"
  "traced (t\<lparr>ptr := l\<rparr>) = traced t"
  by (simp_all add: traced_def)

lemma traced_out: "traced t \<Longrightarrow> out t = out_trace"
  by (simp add: traced_def)

lemmas sink_simps = traced_out fold_out_trace out_trace_def fold_fold

lemma do_out_sink [simp]:
  "traced t \<Longrightarrow> do_out (with_sink f p t) c = with_sink f p (do_out t c)"
  "traced (do_out t c) = traced t"
  by (simp_all add: do_out_def sink_simps fold_step [of f] del: fold_append fold_simps)

lemma pad_spaces_sink [simp]:
  "traced t \<Longrightarrow> pad_spaces (with_sink f p t) = with_sink f p (pad_spaces t)"
  "traced (pad_spaces t) = traced t"
  by (simp_all add: pad_spaces_eq sink_simps del: fold_append fold_replicate)

lemma pad_zeros_sink [simp]:
  "traced t \<Longrightarrow> pad_zeros (with_sink f p t) = with_sink f p (pad_zeros t)"
  "traced (pad_zeros t) = traced t"
  by (simp_all add: pad_zeros_eq sink_simps del: fold_append fold_replicate)

lemma pad_precision_sink [simp]:
  "traced t \<Longrightarrow> pad_precision (with_sink f p t) = with_sink f p (pad_precision t)"
  "traced (pad_precision t) = traced t"
  by (simp_all add: pad_precision_eq sink_simps del: fold_append fold_replicate)

lemma pad_trailing_sink [simp]:
  "traced t \<Longrightarrow> pad_trailing (with_sink f p t) = with_sink f p (pad_trailing t)"
  "traced (pad_trailing t) = traced t"
  by (simp_all add: pad_trailing_eq sink_simps del: fold_append fold_replicate)

lemma pad_field_sink [simp]:
  "traced t \<Longrightarrow> pad_field l (with_sink f p t) = with_sink f p (pad_field l t)"
  "traced (pad_field l t) = traced t"
  by (simp_all add: pad_field_eq sink_simps del: fold_append fold_replicate of_nat_diff)

lemma ntoa_decimal_loop_sink [simp]:
  "traced t \<Longrightarrow> ntoa_decimal_loop tab (with_sink f p t) v = with_sink f p (ntoa_decimal_loop tab t v)"
  "traced (ntoa_decimal_loop tab t v) = traced t"
  by (simp_all add: ntoa_decimal_loop_eq sink_simps del: fold_append)

lemma ntoa_shift_loop_sink [simp]:
  "traced t \<Longrightarrow> ntoa_shift_loop (with_sink f p t) v = with_sink f p (ntoa_shift_loop t v)"
  "traced (ntoa_shift_loop t v) = traced t"
  by (simp_all add: ntoa_shift_loop_eq sink_simps del: fold_append)


lemma do_out_sel [simp]:
  "out (do_out t c) = out t"
  "flags (do_out t c) = flags t"
  "width (do_out t c) = width t"
  "precision (do_out t c) = precision t"
  "base (do_out t c) = base t"
  "digit_count (do_out t c) = digit_count t"
  "idx (do_out t c) = idx t + 1"
  "ptr (do_out t c) = out t c (ptr t)"
  by (simp_all add: do_out_def)

definition adjust_width :: "'p data_t \<Rightarrow> 'p data_t" where
  "adjust_width d = d\<lparr>width := word_of_int (MAX_int (uint (width d) - uint (digit_count d)) 0)\<rparr>"

definition adjust_precision :: "'p data_t \<Rightarrow> 'p data_t" where
  "adjust_precision d =
     d\<lparr>precision := word_of_int (MAX_int (uint (precision d) - uint (digit_count d)) 0)\<rparr>"

definition adjust_sign :: "'p data_t \<Rightarrow> 'p data_t" where
  "adjust_sign d =
     (if width d > 0 \<and> tst (flags d) (FLAGS_NEGATIVE OR FLAGS_PLUS OR FLAGS_SPACE)
      then d\<lparr>width := width d - 1\<rparr> else d)"

definition adjust_zeros :: "'p data_t \<Rightarrow> 'p data_t" where
  "adjust_zeros d =
     (if tst (flags d) FLAGS_PRECISION
      then d\<lparr>width := word_of_int (MAX_int (uint (width d) - uint (precision d)) 0)\<rparr>
      else d)"

definition adjust_hash :: "'p data_t \<Rightarrow> 'p data_t" where
  "adjust_hash d =
     (if tst (flags d) FLAGS_HASH
      then (if base d = BASE_HEX \<or> base d = BASE_BINARY
            then d\<lparr>width := word_of_int (MAX_int (uint (width d) - 2) 0)\<rparr>
            else if width d > 0 then d\<lparr>width := width d - 1\<rparr>
            else d)
      else d)"

lemma ntoa_format_adjust_steps:
  "ntoa_format_adjust d =
     adjust_hash (adjust_zeros (adjust_sign (adjust_precision (adjust_width d))))"
  by (simp only: ntoa_format_adjust_def Let_def adjust_hash_def adjust_zeros_def adjust_sign_def
      adjust_precision_def adjust_width_def)

lemma adjust_sink [simp]:
  "adjust_width (with_sink f p t) = with_sink f p (adjust_width t)"
  "adjust_precision (with_sink f p t) = with_sink f p (adjust_precision t)"
  "adjust_sign (with_sink f p t) = with_sink f p (adjust_sign t)"
  "adjust_zeros (with_sink f p t) = with_sink f p (adjust_zeros t)"
  "adjust_hash (with_sink f p t) = with_sink f p (adjust_hash t)"
  by (simp_all add: adjust_hash_def adjust_zeros_def adjust_sign_def adjust_precision_def
      adjust_width_def)

lemma adjust_traced [simp]:
  "traced (adjust_width t) = traced t"
  "traced (adjust_precision t) = traced t"
  "traced (adjust_sign t) = traced t"
  "traced (adjust_zeros t) = traced t"
  "traced (adjust_hash t) = traced t"
  by (simp_all add: adjust_hash_def adjust_zeros_def adjust_sign_def adjust_precision_def
      adjust_width_def)

lemma ntoa_format_adjust_sink [simp]:
  "ntoa_format_adjust (with_sink f p t) = with_sink f p (ntoa_format_adjust t)"
  "traced (ntoa_format_adjust t) = traced t"
  by (simp_all add: ntoa_format_adjust_steps)

lemma ntoa_format_sign_sink [simp]:
  "traced t \<Longrightarrow> ntoa_format_sign (with_sink f p t) = with_sink f p (ntoa_format_sign t)"
  "traced (ntoa_format_sign t) = traced t"
  by (simp_all add: ntoa_format_sign_def)

lemma ntoa_format_hash_sink [simp]:
  "traced t \<Longrightarrow> ntoa_format_hash (with_sink f p t) = with_sink f p (ntoa_format_hash t)"
  "traced (ntoa_format_hash t) = traced t"
  by (simp_all add: ntoa_format_hash_def Let_def)


lemma ntoa_format_sink [simp]:
  "traced t \<Longrightarrow> ntoa_format (with_sink f p t) = with_sink f p (ntoa_format t)"
  "traced (ntoa_format t) = traced t"
  by (simp_all add: ntoa_format_def Let_def)

lemma do_out_explicit: "d\<lparr>ptr := out d c (ptr d), idx := idx d + 1\<rparr> = do_out d c"
  by (simp add: do_out_def)

lemma ntoa_long_sink [simp]:
  "traced t \<Longrightarrow> ntoa_long (with_sink f p t) v = with_sink f p (ntoa_long t v)"
  "traced (ntoa_long t v) = traced t"
  unfolding ntoa_long_def do_out_explicit by (simp_all add: Let_def)

lemma ntoa_long_long_sink [simp]:
  "traced t \<Longrightarrow> ntoa_long_long (with_sink f p t) v = with_sink f p (ntoa_long_long t v)"
  "traced (ntoa_long_long t v) = traced t"
  unfolding ntoa_long_long_def do_out_explicit by (simp_all add: Let_def)

lemma pre_format_long_sink [simp]:
  "pre_format_long (with_sink f p t) v n = with_sink f p (pre_format_long t v n)"
  "traced (pre_format_long t v n) = traced t"
  by (simp_all add: pre_format_long_def Let_def)

lemma pre_format_long_long_sink [simp]:
  "pre_format_long_long (with_sink f p t) v n = with_sink f p (pre_format_long_long t v n)"
  "traced (pre_format_long_long t v n) = traced t"
  by (simp_all add: pre_format_long_long_def Let_def)

lemma print_string_loop_sink:
  "traced t \<Longrightarrow> print_string_loop (with_sink f p t) s = with_sink f p (print_string_loop t s)
     \<and> traced (print_string_loop t s)"
  by (induction s arbitrary: t) simp_all

lemma print_string_sink [simp]:
  "traced t \<Longrightarrow> print_string (with_sink f p t) s = with_sink f p (print_string t s)"
  "traced t \<Longrightarrow> traced (print_string t s)"
  by (simp_all add: print_string_def Let_def print_string_loop_sink)

definition sink3 ::
  "(char \<Rightarrow> 'p \<Rightarrow> 'p) \<Rightarrow> 'p \<Rightarrow> error + (nat \<times> char list data_t \<times> arg list)
     \<Rightarrow> error + (nat \<times> 'p data_t \<times> arg list)" where
  "sink3 f p = map_sum id (\<lambda>(q, t, va). (q, with_sink f p t, va))"

definition traced3 :: "error + (nat \<times> char list data_t \<times> arg list) \<Rightarrow> bool" where
  "traced3 r = (case r of Inl e \<Rightarrow> True | Inr (q, t, va) \<Rightarrow> traced t)"

lemma sink3_simps [simp]:
  "sink3 f p (Inl e) = Inl e"
  "sink3 f p (Inr (q, t, va)) = Inr (q, with_sink f p t, va)"
  "traced3 (Inl e)"
  "traced3 (Inr (q, t, va)) = traced t"
  by (simp_all add: sink3_def traced3_def)

lemma eval_width_sink:
  "traced t \<Longrightarrow> eval_width fmt q (with_sink f p t) va = sink3 f p (eval_width fmt q t va)
     \<and> traced3 (eval_width fmt q t va)"
  by (simp add: eval_width_def Let_def split: option.splits sum.splits prod.splits)

lemma eval_precision_sink:
  "traced t \<Longrightarrow> eval_precision fmt q (with_sink f p t) va = sink3 f p (eval_precision fmt q t va)
     \<and> traced3 (eval_precision fmt q t va)"
  by (simp add: eval_precision_def Let_def split: option.splits sum.splits prod.splits)

definition sink2 ::
  "(char \<Rightarrow> 'p \<Rightarrow> 'p) \<Rightarrow> 'p \<Rightarrow> error + (char list data_t \<times> arg list)
     \<Rightarrow> error + ('p data_t \<times> arg list)" where
  "sink2 f p = map_sum id (\<lambda>(t, va). (with_sink f p t, va))"

definition traced2 :: "error + (char list data_t \<times> arg list) \<Rightarrow> bool" where
  "traced2 r = (case r of Inl e \<Rightarrow> True | Inr (t, va) \<Rightarrow> traced t)"

lemma sink2_simps [simp]:
  "sink2 f p (Inl e) = Inl e"
  "sink2 f p (Inr (t, va)) = Inr (with_sink f p t, va)"
  "traced2 (Inl e)"
  "traced2 (Inr (t, va)) = traced t"
  by (simp_all add: sink2_def traced2_def)

lemma convert_flags_sink [simp]:
  "convert_flags c (with_sink f p t) = with_sink f p (convert_flags c t)"
  "traced (convert_flags c t) = traced t"
  by (simp_all add: convert_flags_def Let_def)

lemma convert_value_sink:
  "traced t \<Longrightarrow> convert_value c (with_sink f p t) va = sink2 f p (convert_value c t va)
     \<and> traced2 (convert_value c t va)"
  by (simp add: convert_value_def Let_def split: sum.splits prod.splits)

lemma convert_integer_sink:
  "traced t \<Longrightarrow> convert_integer c (with_sink f p t) va = sink2 f p (convert_integer c t va)
     \<and> traced2 (convert_integer c t va)"
  by (simp add: convert_integer_def convert_value_sink)

lemma eval_specifier_sink:
  assumes "traced t"
  shows "eval_specifier fmt q (with_sink f p t) va = sink3 f p (eval_specifier fmt q t va)
     \<and> traced3 (eval_specifier fmt q t va)"
proof (cases "peek fmt q")
  case None
  then show ?thesis by (simp add: eval_specifier_def)
next
  case (Some c)
  from convert_integer_sink [OF assms, of c f p va]
  have ci: "convert_integer c (with_sink f p t) va = sink2 f p (convert_integer c t va)"
    and ct: "traced2 (convert_integer c t va)" by simp_all
  show ?thesis
  proof (cases "convert_integer c t va")
    case (Inl e)
    with Some ci assms show ?thesis
      by (simp add: eval_specifier_def Let_def split: sum.splits prod.splits)
  next
    case (Inr r)
    obtain t' va' where r: "r = (t', va')" by (cases r)
    with Inr ct have "traced t'" by simp
    with Some ci assms Inr r show ?thesis
      by (simp add: eval_specifier_def Let_def split: sum.splits prod.splits)
  qed
qed

lemma directive_sink:
  assumes "traced t"
  shows "directive fmt q (with_sink f p t) va = sink3 f p (directive fmt q t va)
     \<and> traced3 (directive fmt q t va)"
proof (cases "eval_flags fmt q 0")
  case (Inl e)
  then show ?thesis by (simp add: directive_def eval_fields_def)
next
  case a: (Inr r1)
  obtain q1 f1 where r1: "r1 = (q1, f1)" by (cases r1)
  have t1: "traced (t\<lparr>flags := f1\<rparr>)" using assms by simp
  show ?thesis
  proof (cases "eval_width fmt q1 (t\<lparr>flags := f1\<rparr>) va")
    case (Inl e)
    with a r1 eval_width_sink [OF t1, of fmt q1 f p va] show ?thesis
      by (simp add: directive_def eval_fields_def)
  next
    case b: (Inr r2)
    obtain q2 t2 va2 where r2: "r2 = (q2, t2, va2)" by (cases r2)
    with b eval_width_sink [OF t1, of fmt q1 f p va]
    have b': "eval_width fmt q1 (with_sink f p (t\<lparr>flags := f1\<rparr>)) va = Inr (q2, with_sink f p t2, va2)"
      and t2: "traced t2" by simp_all
    show ?thesis
    proof (cases "eval_precision fmt q2 t2 va2")
      case (Inl e)
      with a r1 b r2 b' eval_precision_sink [OF t2, of fmt q2 f p va2] show ?thesis
        by (simp add: directive_def eval_fields_def)
    next
      case c: (Inr r3)
      obtain q3 t3 va3 where r3: "r3 = (q3, t3, va3)" by (cases r3)
      with c eval_precision_sink [OF t2, of fmt q2 f p va2]
      have c': "eval_precision fmt q2 (with_sink f p t2) va2 = Inr (q3, with_sink f p t3, va3)"
        and t3: "traced t3" by simp_all
      show ?thesis
      proof (cases "eval_length fmt q3 (flags t3)")
        case (Inl e)
        with a r1 b r2 b' c r3 c' show ?thesis
          by (simp add: directive_def eval_fields_def)
      next
        case d: (Inr r4)
        obtain q4 f4 where r4: "r4 = (q4, f4)" by (cases r4)
        have t4: "traced (t3\<lparr>flags := f4\<rparr>)" using t3 by simp
        from a r1 b r2 b' c r3 c' d r4 eval_specifier_sink [OF t4, of fmt q4 f p va3]
        show ?thesis
          by (simp add: directive_def eval_fields_def)
      qed
    qed
  qed
qed

definition sink1 :: "(char \<Rightarrow> 'p \<Rightarrow> 'p) \<Rightarrow> 'p \<Rightarrow> error + char list data_t \<Rightarrow> error + 'p data_t" where
  "sink1 f p = map_sum id (with_sink f p)"

lemma sink1_simps [simp]:
  "sink1 f p (Inl e) = Inl e"
  "sink1 f p (Inr t) = Inr (with_sink f p t)"
  by (simp_all add: sink1_def)

lemma format_loop_sink:
  "traced t \<Longrightarrow> format_loop fmt q (with_sink f p t) va = sink1 f p (format_loop fmt q t va)"
proof (induction fmt q t va rule: format_loop.induct)
  case (1 fmt q t va)
  show ?case
  proof (cases "peek fmt q")
    case None
    then show ?thesis
      by (subst format_loop.simps, subst (2) format_loop.simps) simp
  next
    case (Some c)
    show ?thesis
    proof (cases "c = NUL")
      case True
      with Some show ?thesis
        by (subst format_loop.simps, subst (2) format_loop.simps) simp
    next
      case nz: False
      show ?thesis
      proof (cases "c = CHR ''%''")
        case False
        have "traced (do_out t c)" using "1.prems" by simp
        from "1.IH" (1) [OF Some nz False this] Some nz False "1.prems" show ?thesis
          by (subst format_loop.simps, subst (2) format_loop.simps) simp
      next
        case True
        from directive_sink [OF "1.prems", of fmt "q + 1" f p va]
        have ds: "directive fmt (q + 1) (with_sink f p t) va = sink3 f p (directive fmt (q + 1) t va)"
          and dt: "traced3 (directive fmt (q + 1) t va)" by simp_all
        show ?thesis
        proof (cases "directive fmt (q + 1) t va")
          case (Inl e)
          with Some nz True ds show ?thesis
            by (subst format_loop.simps, subst (2) format_loop.simps) simp
        next
          case (Inr r)
          obtain q' t' va' where r: "r = (q', t', va')" by (cases r)
          with Inr dt have t': "traced t'" by simp
          from True have "\<not> c \<noteq> CHR ''%''" by simp
          from "1.IH" (2) [OF Some nz this Inr [unfolded r] refl refl t']
          have "format_loop fmt q' (with_sink f p t') va' = sink1 f p (format_loop fmt q' t' va')" .
          with Some nz True ds Inr r show ?thesis
            by (subst format_loop.simps, subst (2) format_loop.simps) simp
        qed
      qed
    qed
  qed
qed

theorem format_out_sink:
  "format_out f p fmt va =
     map_sum id (\<lambda>(n, cs). (n, fold f cs p)) (format_out out_trace [] fmt va)"
proof -
  let ?t = "\<lparr>out = out_trace, ptr = [], flags = 0, idx = 0, width = 0, precision = 0,
              base = BASE_BINARY, digit_count = 0\<rparr>"
  have t: "traced ?t" by (simp add: traced_def)
  have e: "\<lparr>out = f, ptr = p, flags = 0, idx = 0, width = 0, precision = 0,
              base = BASE_BINARY, digit_count = 0\<rparr> = with_sink f p ?t"
    by (simp add: with_sink_def)
  show ?thesis
    unfolding format_out_def e format_loop_sink [OF t]
    by (cases "format_loop fmt 0 ?t va") simp_all
qed

section \<open>What a numeric directive writes\<close>

text \<open>
  The layout as the specification lists it: padding spaces, sign, radix prefix,
  precision zeros, zero-pad zeros; \<open>w\<close> and \<open>p\<close> are the width and the precision left
  after \<^verbatim>\<open>ntoa_format\<close> has reduced them.
\<close>

definition spec_sign :: "uint16_t \<Rightarrow> char list" where
  "spec_sign f =
     (if tst f FLAGS_NEGATIVE then ''-''
      else if tst f FLAGS_PLUS then ''+''
      else if tst f FLAGS_SPACE then '' ''
      else [])"

definition spec_prefix :: "uint16_t \<Rightarrow> base_t \<Rightarrow> char list" where
  "spec_prefix f b =
     (if tst f FLAGS_HASH
      then (if b = BASE_HEX then (if tst f FLAGS_UPPERCASE then ''0X'' else ''0x'')
            else if b = BASE_BINARY then ''0b''
            else ''0'')
      else [])"

definition spec_layout :: "uint16_t \<Rightarrow> base_t \<Rightarrow> nat \<Rightarrow> nat \<Rightarrow> char list" where
  "spec_layout f b w p =
     replicate (if \<not> tst f FLAGS_LEFT \<and> \<not> tst f FLAGS_ZEROPAD then w else 0) (CHR '' '')
     @ spec_sign f
     @ spec_prefix f b
     @ replicate (if \<not> tst f FLAGS_LEFT then p else 0) (CHR ''0'')
     @ replicate (if \<not> tst f FLAGS_LEFT \<and> tst f FLAGS_ZEROPAD then w else 0) (CHR ''0'')"

lemma adjust_step_sel [simp]:
  "flags (adjust_width d) = flags d" "base (adjust_width d) = base d"
  "out (adjust_width d) = out d" "ptr (adjust_width d) = ptr d" "idx (adjust_width d) = idx d"
  "digit_count (adjust_width d) = digit_count d"
  "flags (adjust_precision d) = flags d" "base (adjust_precision d) = base d"
  "out (adjust_precision d) = out d" "ptr (adjust_precision d) = ptr d" "idx (adjust_precision d) = idx d"
  "digit_count (adjust_precision d) = digit_count d"
  "flags (adjust_sign d) = flags d" "base (adjust_sign d) = base d"
  "out (adjust_sign d) = out d" "ptr (adjust_sign d) = ptr d" "idx (adjust_sign d) = idx d"
  "digit_count (adjust_sign d) = digit_count d"
  "flags (adjust_zeros d) = flags d" "base (adjust_zeros d) = base d"
  "out (adjust_zeros d) = out d" "ptr (adjust_zeros d) = ptr d" "idx (adjust_zeros d) = idx d"
  "digit_count (adjust_zeros d) = digit_count d"
  "flags (adjust_hash d) = flags d" "base (adjust_hash d) = base d"
  "out (adjust_hash d) = out d" "ptr (adjust_hash d) = ptr d" "idx (adjust_hash d) = idx d"
  "digit_count (adjust_hash d) = digit_count d"
  by (simp_all add: adjust_width_def adjust_precision_def adjust_sign_def adjust_zeros_def
      adjust_hash_def)

lemma ntoa_format_adjust_sel [simp]:
  "flags (ntoa_format_adjust d) = flags d" "base (ntoa_format_adjust d) = base d"
  "out (ntoa_format_adjust d) = out d" "ptr (ntoa_format_adjust d) = ptr d"
  "idx (ntoa_format_adjust d) = idx d" "digit_count (ntoa_format_adjust d) = digit_count d"
  by (simp_all add: ntoa_format_adjust_steps)

lemma ntoa_format_sign_eq:
  "ntoa_format_sign d = d\<lparr>ptr := fold (out d) (spec_sign (flags d)) (ptr d),
      idx := idx d + of_nat (length (spec_sign (flags d)))\<rparr>"
  by (simp add: ntoa_format_sign_def spec_sign_def do_out_def)

lemma ntoa_format_hash_eq:
  "ntoa_format_hash d = d\<lparr>ptr := fold (out d) (spec_prefix (flags d) (base d)) (ptr d),
      idx := idx d + of_nat (length (spec_prefix (flags d) (base d)))\<rparr>"
  by (cases "base d") (simp_all add: ntoa_format_hash_def spec_prefix_def do_out_def Let_def)


lemma ntoa_format_eq:
  "ntoa_format d =
     (ntoa_format_adjust d)
       \<lparr>ptr := fold (out d)
          (spec_layout (flags d) (base d) (unat (width (ntoa_format_adjust d)))
             (unat (precision (ntoa_format_adjust d)))) (ptr d),
        idx := idx d + of_nat (length
          (spec_layout (flags d) (base d) (unat (width (ntoa_format_adjust d)))
             (unat (precision (ntoa_format_adjust d))))),
        width := (if tst (flags d) FLAGS_LEFT then width (ntoa_format_adjust d) else 0),
        precision := (if tst (flags d) FLAGS_LEFT then precision (ntoa_format_adjust d) else 0)\<rparr>"
proof -
  define a where "a = ntoa_format_adjust d"
  have sel: "flags a = flags d" "base a = base d" "out a = out d" "ptr a = ptr d" "idx a = idx d"
    by (simp_all add: a_def)
  have "ntoa_format d =
     (let data2 = (if \<not> tst (flags a) FLAGS_LEFT \<and> \<not> tst (flags a) FLAGS_ZEROPAD
                   then pad_spaces a else a);
          data3 = ntoa_format_sign data2;
          data4 = ntoa_format_hash data3
      in if \<not> tst (flags data4) FLAGS_LEFT
         then pad_zeros (pad_precision data4)
         else data4)"
    by (simp only: ntoa_format_def a_def Let_def)
  also have "\<dots> = a\<lparr>ptr := fold (out d)
          (spec_layout (flags d) (base d) (unat (width a)) (unat (precision a))) (ptr d),
        idx := idx d + of_nat (length
          (spec_layout (flags d) (base d) (unat (width a)) (unat (precision a)))),
        width := (if tst (flags d) FLAGS_LEFT then width a else 0),
        precision := (if tst (flags d) FLAGS_LEFT then precision a else 0)\<rparr>"
    by (simp add: Let_def pad_spaces_eq pad_zeros_eq pad_precision_eq ntoa_format_sign_eq
        ntoa_format_hash_eq spec_layout_def sel del: fold_replicate)
  finally show ?thesis by (simp only: a_def)
qed


lemma length_decimal_chars [simp]: "length (decimal_chars tab n v) = n"
  by (induction n arbitrary: v) simp_all

lemma length_shift_chars [simp]: "length (shift_chars f b n v) = n"
  by (induction n) simp_all

text \<open>The digits the converter writes for a value: none for zero under a precision, the
  single digit for zero otherwise, and \<open>digit_count\<close> digits for any other value.\<close>

definition digits_of :: "'a::len word list \<Rightarrow> uint16_t \<Rightarrow> base_t \<Rightarrow> uint8_t \<Rightarrow> 'a word \<Rightarrow> char list" where
  "digits_of tab f b n v =
     (if tst f FLAGS_PRECISION \<and> v = 0 then []
      else if v = 0 then ''0''
      else if b = BASE_DECIMAL then decimal_chars tab (unat n) v
      else shift_chars f b (unat n) v)"

definition trailing_of :: "uint16_t \<Rightarrow> nat \<Rightarrow> char list" where
  "trailing_of f w = replicate (if tst f FLAGS_LEFT then w else 0) (CHR '' '')"

lemma ntoa_long_eq:
  "ntoa_long d v =
     d\<lparr>ptr := fold (out d)
          (digits_of pow10_long (flags d) (base d) (digit_count d) v
             @ trailing_of (flags d) (unat (width d))) (ptr d),
       idx := idx d + of_nat (length (digits_of pow10_long (flags d) (base d) (digit_count d) v)),
       digit_count := (if v = 0 then digit_count d else 0),
       width := (if tst (flags d) FLAGS_LEFT then 0 else width d)\<rparr>"
  by (simp add: ntoa_long_def Let_def digits_of_def trailing_of_def ntoa_decimal_loop_eq
      ntoa_shift_loop_eq pad_trailing_eq del: fold_replicate)

lemma ntoa_long_long_eq:
  "ntoa_long_long d v =
     d\<lparr>ptr := fold (out d)
          (digits_of pow10_long_long (flags d) (base d) (digit_count d) v
             @ trailing_of (flags d) (unat (width d))) (ptr d),
       idx := idx d + of_nat (length (digits_of pow10_long_long (flags d) (base d) (digit_count d) v)),
       digit_count := (if v = 0 then digit_count d else 0),
       width := (if tst (flags d) FLAGS_LEFT then 0 else width d)\<rparr>"
  by (simp add: ntoa_long_long_def Let_def digits_of_def trailing_of_def ntoa_decimal_loop_eq
      ntoa_shift_loop_eq pad_trailing_eq del: fold_replicate)


lemmas flag_defs = FLAGS_ZEROPAD_def FLAGS_LEFT_def FLAGS_PLUS_def FLAGS_SPACE_def FLAGS_HASH_def
  FLAGS_UPPERCASE_def FLAGS_CHAR_def FLAGS_SHORT_def FLAGS_LONG_def FLAGS_LONG_LONG_def
  FLAGS_PRECISION_def FLAGS_ADAPT_EXP_def FLAGS_NEGATIVE_def

lemma tst_bit: "tst f (push_bit n 1) = bit f n"
  by (simp add: tst_def bit_iff_and_push_bit_not_eq_0)

lemma pre_format_long_sel [simp]:
  "out (pre_format_long d v n) = out d" "ptr (pre_format_long d v n) = ptr d"
  "idx (pre_format_long d v n) = idx d" "width (pre_format_long d v n) = width d"
  "precision (pre_format_long d v n) = precision d" "base (pre_format_long d v n) = base d"
  "digit_count (pre_format_long d v n) = get_digits_long v (base d)"
  by (simp_all add: pre_format_long_def Let_def)

lemma pre_format_long_long_sel [simp]:
  "out (pre_format_long_long d v n) = out d" "ptr (pre_format_long_long d v n) = ptr d"
  "idx (pre_format_long_long d v n) = idx d" "width (pre_format_long_long d v n) = width d"
  "precision (pre_format_long_long d v n) = precision d" "base (pre_format_long_long d v n) = base d"
  "digit_count (pre_format_long_long d v n) = get_digits_long_long v (base d)"
  by (simp_all add: pre_format_long_long_def Let_def)



lemma ptr_ntoa_long_ntoa_format:
  "ptr (ntoa_long (ntoa_format d) v) =
     fold (out d)
       (spec_layout (flags d) (base d) (unat (width (ntoa_format_adjust d)))
            (unat (precision (ntoa_format_adjust d)))
          @ digits_of pow10_long (flags d) (base d) (digit_count d) v
          @ trailing_of (flags d) (unat (width (ntoa_format_adjust d))))
       (ptr d)"
  by (simp add: ntoa_long_eq ntoa_format_eq trailing_of_def)

lemma ptr_ntoa_long_long_ntoa_format:
  "ptr (ntoa_long_long (ntoa_format d) v) =
     fold (out d)
       (spec_layout (flags d) (base d) (unat (width (ntoa_format_adjust d)))
            (unat (precision (ntoa_format_adjust d)))
          @ digits_of pow10_long_long (flags d) (base d) (digit_count d) v
          @ trailing_of (flags d) (unat (width (ntoa_format_adjust d))))
       (ptr d)"
  by (simp add: ntoa_long_long_eq ntoa_format_eq trailing_of_def)

section \<open>Flag tests, absolute values, the device\<close>

text \<open>Deciding a flag test on a flag word built from the named flags.\<close>

lemma tst_0 [simp]: "tst 0 m = False"
  by (simp add: tst_def)

lemma tst_or [simp]: "tst (f OR g) m = (tst f m \<or> tst g m)"
  by (auto simp add: tst_def bit.conj_disj_distrib2 or_eq_0_iff)

lemma tst_and_not [simp]:
  "tst (f AND NOT g) FLAGS_ZEROPAD = (tst f FLAGS_ZEROPAD \<and> \<not> tst g FLAGS_ZEROPAD)"
  "tst (f AND NOT g) FLAGS_LEFT = (tst f FLAGS_LEFT \<and> \<not> tst g FLAGS_LEFT)"
  "tst (f AND NOT g) FLAGS_PLUS = (tst f FLAGS_PLUS \<and> \<not> tst g FLAGS_PLUS)"
  "tst (f AND NOT g) FLAGS_SPACE = (tst f FLAGS_SPACE \<and> \<not> tst g FLAGS_SPACE)"
  "tst (f AND NOT g) FLAGS_HASH = (tst f FLAGS_HASH \<and> \<not> tst g FLAGS_HASH)"
  "tst (f AND NOT g) FLAGS_UPPERCASE = (tst f FLAGS_UPPERCASE \<and> \<not> tst g FLAGS_UPPERCASE)"
  "tst (f AND NOT g) FLAGS_CHAR = (tst f FLAGS_CHAR \<and> \<not> tst g FLAGS_CHAR)"
  "tst (f AND NOT g) FLAGS_SHORT = (tst f FLAGS_SHORT \<and> \<not> tst g FLAGS_SHORT)"
  "tst (f AND NOT g) FLAGS_LONG = (tst f FLAGS_LONG \<and> \<not> tst g FLAGS_LONG)"
  "tst (f AND NOT g) FLAGS_LONG_LONG = (tst f FLAGS_LONG_LONG \<and> \<not> tst g FLAGS_LONG_LONG)"
  "tst (f AND NOT g) FLAGS_PRECISION = (tst f FLAGS_PRECISION \<and> \<not> tst g FLAGS_PRECISION)"
  "tst (f AND NOT g) FLAGS_ADAPT_EXP = (tst f FLAGS_ADAPT_EXP \<and> \<not> tst g FLAGS_ADAPT_EXP)"
  "tst (f AND NOT g) FLAGS_NEGATIVE = (tst f FLAGS_NEGATIVE \<and> \<not> tst g FLAGS_NEGATIVE)"
  unfolding flag_defs tst_bit by (simp_all add: bit_simps)

lemma tst_atoms [simp]:
  "tst FLAGS_ZEROPAD FLAGS_ZEROPAD = True"
  "tst FLAGS_ZEROPAD FLAGS_LEFT = False"
  "tst FLAGS_ZEROPAD FLAGS_PLUS = False"
  "tst FLAGS_ZEROPAD FLAGS_SPACE = False"
  "tst FLAGS_ZEROPAD FLAGS_HASH = False"
  "tst FLAGS_ZEROPAD FLAGS_UPPERCASE = False"
  "tst FLAGS_ZEROPAD FLAGS_CHAR = False"
  "tst FLAGS_ZEROPAD FLAGS_SHORT = False"
  "tst FLAGS_ZEROPAD FLAGS_LONG = False"
  "tst FLAGS_ZEROPAD FLAGS_LONG_LONG = False"
  "tst FLAGS_ZEROPAD FLAGS_PRECISION = False"
  "tst FLAGS_ZEROPAD FLAGS_ADAPT_EXP = False"
  "tst FLAGS_ZEROPAD FLAGS_NEGATIVE = False"
  "tst FLAGS_LEFT FLAGS_ZEROPAD = False"
  "tst FLAGS_LEFT FLAGS_LEFT = True"
  "tst FLAGS_LEFT FLAGS_PLUS = False"
  "tst FLAGS_LEFT FLAGS_SPACE = False"
  "tst FLAGS_LEFT FLAGS_HASH = False"
  "tst FLAGS_LEFT FLAGS_UPPERCASE = False"
  "tst FLAGS_LEFT FLAGS_CHAR = False"
  "tst FLAGS_LEFT FLAGS_SHORT = False"
  "tst FLAGS_LEFT FLAGS_LONG = False"
  "tst FLAGS_LEFT FLAGS_LONG_LONG = False"
  "tst FLAGS_LEFT FLAGS_PRECISION = False"
  "tst FLAGS_LEFT FLAGS_ADAPT_EXP = False"
  "tst FLAGS_LEFT FLAGS_NEGATIVE = False"
  "tst FLAGS_PLUS FLAGS_ZEROPAD = False"
  "tst FLAGS_PLUS FLAGS_LEFT = False"
  "tst FLAGS_PLUS FLAGS_PLUS = True"
  "tst FLAGS_PLUS FLAGS_SPACE = False"
  "tst FLAGS_PLUS FLAGS_HASH = False"
  "tst FLAGS_PLUS FLAGS_UPPERCASE = False"
  "tst FLAGS_PLUS FLAGS_CHAR = False"
  "tst FLAGS_PLUS FLAGS_SHORT = False"
  "tst FLAGS_PLUS FLAGS_LONG = False"
  "tst FLAGS_PLUS FLAGS_LONG_LONG = False"
  "tst FLAGS_PLUS FLAGS_PRECISION = False"
  "tst FLAGS_PLUS FLAGS_ADAPT_EXP = False"
  "tst FLAGS_PLUS FLAGS_NEGATIVE = False"
  "tst FLAGS_SPACE FLAGS_ZEROPAD = False"
  "tst FLAGS_SPACE FLAGS_LEFT = False"
  "tst FLAGS_SPACE FLAGS_PLUS = False"
  "tst FLAGS_SPACE FLAGS_SPACE = True"
  "tst FLAGS_SPACE FLAGS_HASH = False"
  "tst FLAGS_SPACE FLAGS_UPPERCASE = False"
  "tst FLAGS_SPACE FLAGS_CHAR = False"
  "tst FLAGS_SPACE FLAGS_SHORT = False"
  "tst FLAGS_SPACE FLAGS_LONG = False"
  "tst FLAGS_SPACE FLAGS_LONG_LONG = False"
  "tst FLAGS_SPACE FLAGS_PRECISION = False"
  "tst FLAGS_SPACE FLAGS_ADAPT_EXP = False"
  "tst FLAGS_SPACE FLAGS_NEGATIVE = False"
  "tst FLAGS_HASH FLAGS_ZEROPAD = False"
  "tst FLAGS_HASH FLAGS_LEFT = False"
  "tst FLAGS_HASH FLAGS_PLUS = False"
  "tst FLAGS_HASH FLAGS_SPACE = False"
  "tst FLAGS_HASH FLAGS_HASH = True"
  "tst FLAGS_HASH FLAGS_UPPERCASE = False"
  "tst FLAGS_HASH FLAGS_CHAR = False"
  "tst FLAGS_HASH FLAGS_SHORT = False"
  "tst FLAGS_HASH FLAGS_LONG = False"
  "tst FLAGS_HASH FLAGS_LONG_LONG = False"
  "tst FLAGS_HASH FLAGS_PRECISION = False"
  "tst FLAGS_HASH FLAGS_ADAPT_EXP = False"
  "tst FLAGS_HASH FLAGS_NEGATIVE = False"
  "tst FLAGS_UPPERCASE FLAGS_ZEROPAD = False"
  "tst FLAGS_UPPERCASE FLAGS_LEFT = False"
  "tst FLAGS_UPPERCASE FLAGS_PLUS = False"
  "tst FLAGS_UPPERCASE FLAGS_SPACE = False"
  "tst FLAGS_UPPERCASE FLAGS_HASH = False"
  "tst FLAGS_UPPERCASE FLAGS_UPPERCASE = True"
  "tst FLAGS_UPPERCASE FLAGS_CHAR = False"
  "tst FLAGS_UPPERCASE FLAGS_SHORT = False"
  "tst FLAGS_UPPERCASE FLAGS_LONG = False"
  "tst FLAGS_UPPERCASE FLAGS_LONG_LONG = False"
  "tst FLAGS_UPPERCASE FLAGS_PRECISION = False"
  "tst FLAGS_UPPERCASE FLAGS_ADAPT_EXP = False"
  "tst FLAGS_UPPERCASE FLAGS_NEGATIVE = False"
  "tst FLAGS_CHAR FLAGS_ZEROPAD = False"
  "tst FLAGS_CHAR FLAGS_LEFT = False"
  "tst FLAGS_CHAR FLAGS_PLUS = False"
  "tst FLAGS_CHAR FLAGS_SPACE = False"
  "tst FLAGS_CHAR FLAGS_HASH = False"
  "tst FLAGS_CHAR FLAGS_UPPERCASE = False"
  "tst FLAGS_CHAR FLAGS_CHAR = True"
  "tst FLAGS_CHAR FLAGS_SHORT = False"
  "tst FLAGS_CHAR FLAGS_LONG = False"
  "tst FLAGS_CHAR FLAGS_LONG_LONG = False"
  "tst FLAGS_CHAR FLAGS_PRECISION = False"
  "tst FLAGS_CHAR FLAGS_ADAPT_EXP = False"
  "tst FLAGS_CHAR FLAGS_NEGATIVE = False"
  "tst FLAGS_SHORT FLAGS_ZEROPAD = False"
  "tst FLAGS_SHORT FLAGS_LEFT = False"
  "tst FLAGS_SHORT FLAGS_PLUS = False"
  "tst FLAGS_SHORT FLAGS_SPACE = False"
  "tst FLAGS_SHORT FLAGS_HASH = False"
  "tst FLAGS_SHORT FLAGS_UPPERCASE = False"
  "tst FLAGS_SHORT FLAGS_CHAR = False"
  "tst FLAGS_SHORT FLAGS_SHORT = True"
  "tst FLAGS_SHORT FLAGS_LONG = False"
  "tst FLAGS_SHORT FLAGS_LONG_LONG = False"
  "tst FLAGS_SHORT FLAGS_PRECISION = False"
  "tst FLAGS_SHORT FLAGS_ADAPT_EXP = False"
  "tst FLAGS_SHORT FLAGS_NEGATIVE = False"
  "tst FLAGS_LONG FLAGS_ZEROPAD = False"
  "tst FLAGS_LONG FLAGS_LEFT = False"
  "tst FLAGS_LONG FLAGS_PLUS = False"
  "tst FLAGS_LONG FLAGS_SPACE = False"
  "tst FLAGS_LONG FLAGS_HASH = False"
  "tst FLAGS_LONG FLAGS_UPPERCASE = False"
  "tst FLAGS_LONG FLAGS_CHAR = False"
  "tst FLAGS_LONG FLAGS_SHORT = False"
  "tst FLAGS_LONG FLAGS_LONG = True"
  "tst FLAGS_LONG FLAGS_LONG_LONG = False"
  "tst FLAGS_LONG FLAGS_PRECISION = False"
  "tst FLAGS_LONG FLAGS_ADAPT_EXP = False"
  "tst FLAGS_LONG FLAGS_NEGATIVE = False"
  "tst FLAGS_LONG_LONG FLAGS_ZEROPAD = False"
  "tst FLAGS_LONG_LONG FLAGS_LEFT = False"
  "tst FLAGS_LONG_LONG FLAGS_PLUS = False"
  "tst FLAGS_LONG_LONG FLAGS_SPACE = False"
  "tst FLAGS_LONG_LONG FLAGS_HASH = False"
  "tst FLAGS_LONG_LONG FLAGS_UPPERCASE = False"
  "tst FLAGS_LONG_LONG FLAGS_CHAR = False"
  "tst FLAGS_LONG_LONG FLAGS_SHORT = False"
  "tst FLAGS_LONG_LONG FLAGS_LONG = False"
  "tst FLAGS_LONG_LONG FLAGS_LONG_LONG = True"
  "tst FLAGS_LONG_LONG FLAGS_PRECISION = False"
  "tst FLAGS_LONG_LONG FLAGS_ADAPT_EXP = False"
  "tst FLAGS_LONG_LONG FLAGS_NEGATIVE = False"
  "tst FLAGS_PRECISION FLAGS_ZEROPAD = False"
  "tst FLAGS_PRECISION FLAGS_LEFT = False"
  "tst FLAGS_PRECISION FLAGS_PLUS = False"
  "tst FLAGS_PRECISION FLAGS_SPACE = False"
  "tst FLAGS_PRECISION FLAGS_HASH = False"
  "tst FLAGS_PRECISION FLAGS_UPPERCASE = False"
  "tst FLAGS_PRECISION FLAGS_CHAR = False"
  "tst FLAGS_PRECISION FLAGS_SHORT = False"
  "tst FLAGS_PRECISION FLAGS_LONG = False"
  "tst FLAGS_PRECISION FLAGS_LONG_LONG = False"
  "tst FLAGS_PRECISION FLAGS_PRECISION = True"
  "tst FLAGS_PRECISION FLAGS_ADAPT_EXP = False"
  "tst FLAGS_PRECISION FLAGS_NEGATIVE = False"
  "tst FLAGS_ADAPT_EXP FLAGS_ZEROPAD = False"
  "tst FLAGS_ADAPT_EXP FLAGS_LEFT = False"
  "tst FLAGS_ADAPT_EXP FLAGS_PLUS = False"
  "tst FLAGS_ADAPT_EXP FLAGS_SPACE = False"
  "tst FLAGS_ADAPT_EXP FLAGS_HASH = False"
  "tst FLAGS_ADAPT_EXP FLAGS_UPPERCASE = False"
  "tst FLAGS_ADAPT_EXP FLAGS_CHAR = False"
  "tst FLAGS_ADAPT_EXP FLAGS_SHORT = False"
  "tst FLAGS_ADAPT_EXP FLAGS_LONG = False"
  "tst FLAGS_ADAPT_EXP FLAGS_LONG_LONG = False"
  "tst FLAGS_ADAPT_EXP FLAGS_PRECISION = False"
  "tst FLAGS_ADAPT_EXP FLAGS_ADAPT_EXP = True"
  "tst FLAGS_ADAPT_EXP FLAGS_NEGATIVE = False"
  "tst FLAGS_NEGATIVE FLAGS_ZEROPAD = False"
  "tst FLAGS_NEGATIVE FLAGS_LEFT = False"
  "tst FLAGS_NEGATIVE FLAGS_PLUS = False"
  "tst FLAGS_NEGATIVE FLAGS_SPACE = False"
  "tst FLAGS_NEGATIVE FLAGS_HASH = False"
  "tst FLAGS_NEGATIVE FLAGS_UPPERCASE = False"
  "tst FLAGS_NEGATIVE FLAGS_CHAR = False"
  "tst FLAGS_NEGATIVE FLAGS_SHORT = False"
  "tst FLAGS_NEGATIVE FLAGS_LONG = False"
  "tst FLAGS_NEGATIVE FLAGS_LONG_LONG = False"
  "tst FLAGS_NEGATIVE FLAGS_PRECISION = False"
  "tst FLAGS_NEGATIVE FLAGS_ADAPT_EXP = False"
  "tst FLAGS_NEGATIVE FLAGS_NEGATIVE = True"
  unfolding flag_defs tst_bit by (simp_all add: bit_simps)


lemma uint_ABS: "uint (ABS (v :: 'a::len word)) = \<bar>sint v\<bar>"
proof -
  let ?L = "LENGTH('a)"
  have lo: "- (2 ^ (?L - 1)) \<le> sint v" by (rule sint_ge)
  have hi: "sint v < 2 ^ (?L - 1)" by (rule sint_lt)
  have p: "(2 :: int) ^ ?L = 2 * 2 ^ (?L - 1)"
    by (metis len_gt_0 power_Suc Suc_pred')
  have u: "uint v = sint v mod 2 ^ ?L"
    by (simp add: uint_sint take_bit_eq_mod)
  show ?thesis
  proof (cases "v <s 0")
    case True
    then have neg: "sint v < 0" by (simp add: word_sless_alt)
    have "uint (- v) = (- uint v) mod 2 ^ ?L" by (simp add: uint_word_ariths)
    also have "\<dots> = (- sint v) mod 2 ^ ?L" by (simp add: u mod_minus_eq)
    also have "\<dots> = - sint v"
      using neg lo p by (intro mod_pos_pos_trivial) linarith+
    finally show ?thesis using True neg by (simp add: ABS_def)
  next
    case False
    then have pos: "0 \<le> sint v" by (simp add: word_sless_alt)
    have "sint v mod 2 ^ ?L = sint v"
      using pos hi p by (intro mod_pos_pos_trivial) linarith+
    with u False pos show ?thesis by (simp add: ABS_def)
  qed
qed

lemma fold_out_char: "fold out_char cs dev = dev @ filter (\<lambda>c. c \<noteq> NUL) cs"
  by (induction cs arbitrary: dev) (simp_all add: out_char_def putchar_ext_def)

lemma MAX_int_neg [simp]: "MAX_int (0 - uint x) 0 = 0" "MAX_int (- uint x) 0 = 0"
  by (simp_all add: MAX_int_def)

lemma tst_pre_format_long:
  "tst (flags (pre_format_long d v n)) FLAGS_LEFT = tst (flags d) FLAGS_LEFT"
  "tst (flags (pre_format_long d v n)) FLAGS_ZEROPAD = tst (flags d) FLAGS_ZEROPAD"
  "tst (flags (pre_format_long d v n)) FLAGS_PLUS = tst (flags d) FLAGS_PLUS"
  "tst (flags (pre_format_long d v n)) FLAGS_SPACE = tst (flags d) FLAGS_SPACE"
  "tst (flags (pre_format_long d v n)) FLAGS_PRECISION = tst (flags d) FLAGS_PRECISION"
  "tst (flags (pre_format_long d v n)) FLAGS_UPPERCASE = tst (flags d) FLAGS_UPPERCASE"
  "tst (flags (pre_format_long d v n)) FLAGS_HASH = (v \<noteq> 0 \<and> tst (flags d) FLAGS_HASH)"
  "tst (flags (pre_format_long d v n)) FLAGS_NEGATIVE = (n \<or> tst (flags d) FLAGS_NEGATIVE)"
  by (auto simp: pre_format_long_def Let_def)

lemma tst_pre_format_long_long:
  "tst (flags (pre_format_long_long d w n)) FLAGS_LEFT = tst (flags d) FLAGS_LEFT"
  "tst (flags (pre_format_long_long d w n)) FLAGS_ZEROPAD = tst (flags d) FLAGS_ZEROPAD"
  "tst (flags (pre_format_long_long d w n)) FLAGS_PLUS = tst (flags d) FLAGS_PLUS"
  "tst (flags (pre_format_long_long d w n)) FLAGS_SPACE = tst (flags d) FLAGS_SPACE"
  "tst (flags (pre_format_long_long d w n)) FLAGS_PRECISION = tst (flags d) FLAGS_PRECISION"
  "tst (flags (pre_format_long_long d w n)) FLAGS_UPPERCASE = tst (flags d) FLAGS_UPPERCASE"
  "tst (flags (pre_format_long_long d w n)) FLAGS_HASH = (w \<noteq> 0 \<and> tst (flags d) FLAGS_HASH)"
  "tst (flags (pre_format_long_long d w n)) FLAGS_NEGATIVE = (n \<or> tst (flags d) FLAGS_NEGATIVE)"
  by (auto simp: pre_format_long_long_def Let_def)

section \<open>Decimal digits\<close>

text \<open>Reading a decimal numeral back: the value of a digit character, of a digit string,
  and of a digit string with an optional minus sign.\<close>

definition digit_value :: "char \<Rightarrow> nat" where
  "digit_value c = of_char c - of_char (CHR ''0'')"

definition parse_nat :: "char list \<Rightarrow> nat" where
  "parse_nat cs = foldl (\<lambda>a c. 10 * a + digit_value c) 0 cs"

definition parse_int :: "char list \<Rightarrow> int" where
  "parse_int cs =
     (case cs of
        [] \<Rightarrow> 0
      | c # r \<Rightarrow> if c = CHR ''-'' then - int (parse_nat r) else int (parse_nat cs))"

lemma ucast_small: "unat (w :: 'a::len word) < 256 \<Longrightarrow> unat (ucast w :: uint8_t) = unat w"
proof -
  assume a: "unat w < 256"
  have "(ucast w :: uint8_t) = of_nat (unat w)" by simp
  then have "unat (ucast w :: uint8_t) = unat w mod 2 ^ 8" by (simp only: unat_of_nat) simp
  with a show ?thesis by simp
qed

lemma digit_char_value:
  assumes "q < 10"
  shows "is_digit (char_of (q + of_char (CHR ''0'')))"
    and "digit_value (char_of (q + of_char (CHR ''0''))) = q"
    and "char_of (q + of_char (CHR ''0'')) \<noteq> NUL"
proof -
  have e: "(of_char (char_of (q + 48 :: nat) :: char) :: nat) = q + 48"
    using assms by (simp add: of_char_of)
  then show "is_digit (char_of (q + of_char (CHR ''0'')))"
    using assms by (simp add: is_digit_def)
  from e show "digit_value (char_of (q + of_char (CHR ''0''))) = q"
    by (simp add: digit_value_def)
  show "char_of (q + of_char (CHR ''0'')) \<noteq> NUL"
  proof
    assume "char_of (q + of_char (CHR ''0'')) = NUL"
    then have "(of_char (char_of (q + 48 :: nat)) :: nat) = of_char NUL" by simp
    with e show False by (simp add: NUL_def)
  qed
qed

lemma decimal_chars_correct:
  fixes v :: "'a::len word"
  assumes tab: "\<And>i. i < n \<Longrightarrow> unat (tab ! i) = 10 ^ i"
    and v: "unat v < 10 ^ n"
  shows "foldl (\<lambda>a c. 10 * a + digit_value c) acc (decimal_chars tab n v) = acc * 10 ^ n + unat v
     \<and> (\<forall>c \<in> set (decimal_chars tab n v). is_digit c \<and> c \<noteq> NUL)"
  using assms
proof (induction n arbitrary: v acc)
  case 0
  then show ?case by simp
next
  case (Suc n)
  have t: "unat (tab ! n) = 10 ^ n" by (rule Suc.prems(1)) simp
  let ?q = "unat v div 10 ^ n"
  from Suc.prems(2) have "unat v < 10 * 10 ^ n" by simp
  then have q: "?q < 10"
    by (simp add: less_mult_imp_div_less)
  have dv: "unat (v div tab ! n) = ?q" by (simp add: unat_div t)
  have d: "unat (ucast (v div tab ! n) :: uint8_t) = ?q"
    using q dv ucast_small [of "v div tab ! n"] by simp
  have r: "unat (v mod tab ! n) = unat v mod 10 ^ n" by (simp add: unat_mod t)
  then have rl: "unat (v mod tab ! n) < 10 ^ n" by simp
  have tab': "\<And>i. i < n \<Longrightarrow> unat (tab ! i) = 10 ^ i" using Suc.prems(1) by simp
  note ih = Suc.IH [OF tab' rl, of "10 * acc + ?q"]
  note dc = digit_char_value [OF q]
  have split: "unat v = ?q * 10 ^ n + unat v mod 10 ^ n" by (rule div_mult_mod_eq [symmetric])
  have "foldl (\<lambda>a c. 10 * a + digit_value c) acc (decimal_chars tab (Suc n) v)
      = foldl (\<lambda>a c. 10 * a + digit_value c) (10 * acc + ?q) (decimal_chars tab n (v mod tab ! n))"
    by (simp only: decimal_chars.simps foldl_Cons d dc(2))
  also have "\<dots> = (10 * acc + ?q) * 10 ^ n + unat (v mod tab ! n)"
    using ih by (rule conjunct1)
  also have "\<dots> = acc * 10 ^ Suc n + (?q * 10 ^ n + unat v mod 10 ^ n)"
    by (simp only: r) (simp add: algebra_simps)
  also have "\<dots> = acc * 10 ^ Suc n + unat v"
    by (simp only: split [symmetric])
  finally have 1: "foldl (\<lambda>a c. 10 * a + digit_value c) acc (decimal_chars tab (Suc n) v)
      = acc * 10 ^ Suc n + unat v" .
  have 2: "\<forall>c \<in> set (decimal_chars tab (Suc n) v). is_digit c \<and> c \<noteq> NUL"
    using ih dc by (simp add: d)
  from 1 2 show ?case by (rule conjI)
qed

lemma pow10_long_nth: "i < 10 \<Longrightarrow> unat (pow10_long ! i) = 10 ^ i"
proof -
  assume "i < 10"
  then have "i \<in> {0, 1, 2, 3, 4, 5, 6, 7, 8, 9}" by auto
  then show ?thesis by (elim insertE emptyE) (simp_all add: pow10_long_def)
qed

lemma pow10_long_long_nth: "i < 20 \<Longrightarrow> unat (pow10_long_long ! i) = 10 ^ i"
proof -
  assume "i < 20"
  then have "i = 0 \<or> i = 1 \<or> i = 2 \<or> i = 3 \<or> i = 4 \<or> i = 5 \<or> i = 6 \<or> i = 7 \<or> i = 8 \<or> i = 9
      \<or> i = 10 \<or> i = 11 \<or> i = 12 \<or> i = 13 \<or> i = 14 \<or> i = 15 \<or> i = 16 \<or> i = 17 \<or> i = 18
      \<or> i = 19" by arith
  then show ?thesis by (elim disjE) (simp_all add: pow10_long_long_def)
qed

lemma get_digits_long_loop_decimal:
  "b = BASE_DECIMAL \<Longrightarrow> unat digits \<le> 10 \<Longrightarrow>
   unat (get_digits_long_loop v b digits) \<le> 10
   \<and> unat v < 10 ^ unat (get_digits_long_loop v b digits)"
proof (induction v b digits rule: get_digits_long_loop.induct)
  case (1 v b digits)
  note dec = \<open>b = BASE_DECIMAL\<close>
  show ?case
  proof (cases "unat digits < length pow10_long \<and> v \<ge> pow10_long ! unat digits")
    case True
    then have lt: "unat digits < 10" by (simp add: pow10_long_def)
    then have "unat (digits + 1) = unat digits + 1" by (simp add: unat_word_ariths)
    with lt have le: "unat (digits + 1) \<le> 10" by simp
    have "get_digits_long_loop v b digits = get_digits_long_loop v b (digits + 1)"
      using True dec by (subst get_digits_long_loop.simps) simp
    with "1.IH" (1) [OF dec True dec le] show ?thesis by simp
  next
    case False
    then have res: "get_digits_long_loop v b digits = digits"
      by (subst get_digits_long_loop.simps) (simp only: dec False if_True if_False simp_thms)
    have "unat v < 10 ^ unat digits"
    proof (cases "unat digits < 10")
      case True
      with False have "v < pow10_long ! unat digits" by (simp add: pow10_long_def not_le)
      then have "unat v < unat (pow10_long ! unat digits)" by (simp add: word_less_nat_alt)
      with True show ?thesis by (simp add: pow10_long_nth)
    next
      case False
      with "1.prems" have "unat digits = 10" by simp
      moreover have "unat v < 2 ^ 32" using unsigned_less [of v, where ?'a = nat] by simp
      ultimately show ?thesis by simp
    qed
    with res "1.prems" show ?thesis by simp
  qed
qed

lemma get_digits_long_long_loop_decimal:
  "b = BASE_DECIMAL \<Longrightarrow> unat digits \<le> 20 \<Longrightarrow>
   unat (get_digits_long_long_loop v b digits) \<le> 20
   \<and> unat v < 10 ^ unat (get_digits_long_long_loop v b digits)"
proof (induction v b digits rule: get_digits_long_long_loop.induct)
  case (1 v b digits)
  note dec = \<open>b = BASE_DECIMAL\<close>
  show ?case
  proof (cases "unat digits < length pow10_long_long \<and> v \<ge> pow10_long_long ! unat digits")
    case True
    then have lt: "unat digits < 20" by (simp add: pow10_long_long_def)
    then have "unat (digits + 1) = unat digits + 1" by (simp add: unat_word_ariths)
    with lt have le: "unat (digits + 1) \<le> 20" by simp
    have "get_digits_long_long_loop v b digits = get_digits_long_long_loop v b (digits + 1)"
      using True dec by (subst get_digits_long_long_loop.simps) simp
    with "1.IH" (1) [OF dec True dec le] show ?thesis by simp
  next
    case False
    then have res: "get_digits_long_long_loop v b digits = digits"
      by (subst get_digits_long_long_loop.simps) (simp only: dec False if_True if_False simp_thms)
    have "unat v < 10 ^ unat digits"
    proof (cases "unat digits < 20")
      case True
      with False have "v < pow10_long_long ! unat digits" by (simp add: pow10_long_long_def not_le)
      then have "unat v < unat (pow10_long_long ! unat digits)" by (simp add: word_less_nat_alt)
      with True show ?thesis by (simp add: pow10_long_long_nth)
    next
      case False
      with "1.prems" have "unat digits = 20" by simp
      moreover have "unat v < 2 ^ 64" using unsigned_less [of v, where ?'a = nat] by simp
      ultimately show ?thesis by simp
    qed
    with res "1.prems" show ?thesis by simp
  qed
qed

lemma adjust_plain:
  assumes "width d = 0" "precision d = 0"
  shows "width (ntoa_format_adjust d) = 0" "precision (ntoa_format_adjust d) = 0"
  using assms
  by (simp_all add: ntoa_format_adjust_steps adjust_width_def adjust_precision_def adjust_sign_def
      adjust_zeros_def adjust_hash_def MAX_int_def)

lemma plain_decimal_long:
  assumes "width d = 0" "precision d = 0" "base d = BASE_DECIMAL"
    and "\<not> tst (flags d) FLAGS_PLUS" "\<not> tst (flags d) FLAGS_SPACE"
    and "\<not> tst (flags d) FLAGS_NEGATIVE" "\<not> tst (flags d) FLAGS_PRECISION"
    and "\<not> tst (flags d) FLAGS_HASH"
  shows "ptr (ntoa_long (ntoa_format (pre_format_long d v n)) v) =
     fold (out d)
       ((if n then ''-'' else [])
        @ (if v = 0 then ''0'' else decimal_chars pow10_long (unat (get_digits_long v BASE_DECIMAL)) v))
       (ptr d)"
proof -
  let ?d = "pre_format_long d v n"
  have w: "width (ntoa_format_adjust ?d) = 0" "precision (ntoa_format_adjust ?d) = 0"
    using assms(1,2) by (simp_all add: adjust_plain)
  have s: "spec_layout (flags ?d) (base d) (unat (width (ntoa_format_adjust ?d)))
      (unat (precision (ntoa_format_adjust ?d))) = (if n then ''-'' else [])"
    using assms by (simp add: w spec_layout_def spec_sign_def spec_prefix_def tst_pre_format_long)
  have t: "trailing_of (flags ?d) (unat (width (ntoa_format_adjust ?d))) = []"
    by (simp add: w trailing_of_def)
  have g: "digits_of pow10_long (flags ?d) (base d) (get_digits_long v (base d)) v =
      (if v = 0 then ''0'' else decimal_chars pow10_long (unat (get_digits_long v BASE_DECIMAL)) v)"
    using assms by (simp add: digits_of_def tst_pre_format_long)
  show ?thesis
    by (simp only: ptr_ntoa_long_ntoa_format s g t pre_format_long_sel append_Nil2)
qed

lemma plain_decimal_long_long:
  assumes "width d = 0" "precision d = 0" "base d = BASE_DECIMAL"
    and "\<not> tst (flags d) FLAGS_PLUS" "\<not> tst (flags d) FLAGS_SPACE"
    and "\<not> tst (flags d) FLAGS_NEGATIVE" "\<not> tst (flags d) FLAGS_PRECISION"
    and "\<not> tst (flags d) FLAGS_HASH"
  shows "ptr (ntoa_long_long (ntoa_format (pre_format_long_long d v n)) v) =
     fold (out d)
       ((if n then ''-'' else [])
        @ (if v = 0 then ''0''
           else decimal_chars pow10_long_long (unat (get_digits_long_long v BASE_DECIMAL)) v))
       (ptr d)"
proof -
  let ?d = "pre_format_long_long d v n"
  have w: "width (ntoa_format_adjust ?d) = 0" "precision (ntoa_format_adjust ?d) = 0"
    using assms(1,2) by (simp_all add: adjust_plain)
  have s: "spec_layout (flags ?d) (base d) (unat (width (ntoa_format_adjust ?d)))
      (unat (precision (ntoa_format_adjust ?d))) = (if n then ''-'' else [])"
    using assms by (simp add: w spec_layout_def spec_sign_def spec_prefix_def tst_pre_format_long_long)
  have t: "trailing_of (flags ?d) (unat (width (ntoa_format_adjust ?d))) = []"
    by (simp add: w trailing_of_def)
  have g: "digits_of pow10_long_long (flags ?d) (base d) (get_digits_long_long v (base d)) v =
      (if v = 0 then ''0''
       else decimal_chars pow10_long_long (unat (get_digits_long_long v BASE_DECIMAL)) v)"
    using assms by (simp add: digits_of_def tst_pre_format_long_long)
  show ?thesis
    by (simp only: ptr_ntoa_long_long_ntoa_format s g t pre_format_long_long_sel append_Nil2)
qed

text \<open>The digits written for a decimal value read back as the value.\<close>

lemma decimal_digits_long:
  fixes v :: c_ulong
  defines "ds \<equiv> (if v = 0 then ''0'' else decimal_chars pow10_long (unat (get_digits_long v BASE_DECIMAL)) v)"
  shows "parse_nat ds = unat v \<and> (\<forall>c \<in> set ds. is_digit c \<and> c \<noteq> NUL) \<and> ds \<noteq> []"
proof (cases "v = 0")
  case True
  then show ?thesis by (simp add: ds_def parse_nat_def digit_value_def is_digit_def NUL_def)
next
  case False
  let ?n = "unat (get_digits_long v BASE_DECIMAL)"
  from get_digits_long_loop_decimal [of BASE_DECIMAL 0 v]
  have n: "?n \<le> 10" and lt: "unat v < 10 ^ ?n" by (simp_all add: get_digits_long_def)
  have tab: "\<And>i. i < ?n \<Longrightarrow> unat (pow10_long ! i) = 10 ^ i"
    using n by (intro pow10_long_nth) simp
  from decimal_chars_correct [of ?n pow10_long v 0, OF tab lt]
  have "parse_nat (decimal_chars pow10_long ?n v) = unat v"
    and "\<forall>c \<in> set (decimal_chars pow10_long ?n v). is_digit c \<and> c \<noteq> NUL"
    by (simp_all add: parse_nat_def)
  moreover have "?n \<noteq> 0"
  proof
    assume "?n = 0"
    with lt have "unat v = 0" by simp
    with False show False by (simp add: unat_eq_0)
  qed
  then have "decimal_chars pow10_long ?n v \<noteq> []"
    by (metis length_decimal_chars length_0_conv)
  ultimately show ?thesis using False by (simp add: ds_def)
qed

lemma decimal_digits_long_long:
  fixes v :: c_ulonglong
  defines "ds \<equiv> (if v = 0 then ''0''
     else decimal_chars pow10_long_long (unat (get_digits_long_long v BASE_DECIMAL)) v)"
  shows "parse_nat ds = unat v \<and> (\<forall>c \<in> set ds. is_digit c \<and> c \<noteq> NUL) \<and> ds \<noteq> []"
proof (cases "v = 0")
  case True
  then show ?thesis by (simp add: ds_def parse_nat_def digit_value_def is_digit_def NUL_def)
next
  case False
  let ?n = "unat (get_digits_long_long v BASE_DECIMAL)"
  from get_digits_long_long_loop_decimal [of BASE_DECIMAL 0 v]
  have n: "?n \<le> 20" and lt: "unat v < 10 ^ ?n" by (simp_all add: get_digits_long_long_def)
  have tab: "\<And>i. i < ?n \<Longrightarrow> unat (pow10_long_long ! i) = 10 ^ i"
    using n by (intro pow10_long_long_nth) simp
  from decimal_chars_correct [of ?n pow10_long_long v 0, OF tab lt]
  have "parse_nat (decimal_chars pow10_long_long ?n v) = unat v"
    and "\<forall>c \<in> set (decimal_chars pow10_long_long ?n v). is_digit c \<and> c \<noteq> NUL"
    by (simp_all add: parse_nat_def)
  moreover have "?n \<noteq> 0"
  proof
    assume "?n = 0"
    with lt have "unat v = 0" by simp
    with False show False by (simp add: unat_eq_0)
  qed
  then have "decimal_chars pow10_long_long ?n v \<noteq> []"
    by (metis length_decimal_chars length_0_conv)
  ultimately show ?thesis using False by (simp add: ds_def)
qed

text \<open>The decimal directives, run on the recording sink with a symbolic argument.\<close>

lemmas scan_defs = format_out_def format_loop.simps directive_def eval_fields_def eval_flags.simps
  eval_width_def eval_precision_def eval_length_def eval_specifier_def convert_integer_def
  convert_flags_def convert_value_def va_arg_int_def va_arg_long_def va_arg_long_long_def
  peek_def is_digit_def NUL_def atoi_def atoi_loop.simps

definition decimal_long :: "c_ulong \<Rightarrow> char list" where
  "decimal_long v =
     (if v = 0 then ''0'' else decimal_chars pow10_long (unat (get_digits_long v BASE_DECIMAL)) v)"

definition decimal_long_long :: "c_ulonglong \<Rightarrow> char list" where
  "decimal_long_long v =
     (if v = 0 then ''0''
      else decimal_chars pow10_long_long (unat (get_digits_long_long v BASE_DECIMAL)) v)"

lemma run_d:
  "map_sum id snd (format_out out_trace [] ''%d'' [ArgInt v]) =
     Inr ((if v <s 0 then ''-'' else []) @ decimal_long (ABS v))"
  by (simp add: scan_defs Let_def plain_decimal_long fold_out_trace decimal_long_def
      del: bit.de_Morgan_disj)

lemma run_u:
  "map_sum id snd (format_out out_trace [] ''%u'' [ArgInt v]) = Inr (decimal_long v)"
  by (simp add: scan_defs Let_def plain_decimal_long fold_out_trace decimal_long_def
      del: bit.de_Morgan_disj)

lemma run_ld:
  "map_sum id snd (format_out out_trace [] ''%ld'' [ArgLong v]) =
     Inr ((if v <s 0 then ''-'' else []) @ decimal_long (ABS v))"
  by (simp add: scan_defs Let_def plain_decimal_long fold_out_trace decimal_long_def
      del: bit.de_Morgan_disj)

lemma run_lu:
  "map_sum id snd (format_out out_trace [] ''%lu'' [ArgLong v]) = Inr (decimal_long v)"
  by (simp add: scan_defs Let_def plain_decimal_long fold_out_trace decimal_long_def
      del: bit.de_Morgan_disj)

lemma run_lld:
  "map_sum id snd (format_out out_trace [] ''%lld'' [ArgLongLong w]) =
     Inr ((if w <s 0 then ''-'' else []) @ decimal_long_long (ABS w))"
  by (simp add: scan_defs Let_def plain_decimal_long_long fold_out_trace decimal_long_long_def
      del: bit.de_Morgan_disj)

lemma run_llu:
  "map_sum id snd (format_out out_trace [] ''%llu'' [ArgLongLong w]) = Inr (decimal_long_long w)"
  by (simp add: scan_defs Let_def plain_decimal_long_long fold_out_trace decimal_long_long_def
      del: bit.de_Morgan_disj)


lemma printf_of_trace:
  assumes "map_sum id snd (format_out out_trace [] fmt va) = Inr cs" and "\<forall>c \<in> set cs. c \<noteq> NUL"
  shows "\<exists>n. printf_c fmt va [] = Inr (n, cs)"
proof -
  from assms(1) obtain n where run: "format_out out_trace [] fmt va = Inr (n, cs)"
    by (cases "format_out out_trace [] fmt va") auto
  from assms(2) have "filter (\<lambda>c. c \<noteq> NUL) cs = cs" by (simp add: filter_id_conv)
  then have "printf_c fmt va [] = Inr (uint n, cs)"
    by (simp add: printf_c_def format_out_sink [of out_char] run fold_out_char)
  then show ?thesis ..
qed

lemma decimal_long_reads_back:
  "parse_nat (decimal_long v) = unat v \<and> (\<forall>c \<in> set (decimal_long v). is_digit c \<and> c \<noteq> NUL)
     \<and> decimal_long v \<noteq> []"
  unfolding decimal_long_def by (rule decimal_digits_long)

lemma decimal_long_long_reads_back:
  "parse_nat (decimal_long_long v) = unat v
     \<and> (\<forall>c \<in> set (decimal_long_long v). is_digit c \<and> c \<noteq> NUL)
     \<and> decimal_long_long v \<noteq> []"
  unfolding decimal_long_long_def by (rule decimal_digits_long_long)

lemma signed_reads_back:
  fixes v :: "'a::len word"
  assumes p: "parse_nat ds = unat (ABS v)" and d: "\<forall>c \<in> set ds. is_digit c \<and> c \<noteq> NUL"
    and ne: "ds \<noteq> []"
  shows "parse_int ((if v <s 0 then ''-'' else []) @ ds) = sint v"
proof -
  have a: "int (unat (ABS v)) = \<bar>sint v\<bar>" using uint_ABS [of v] by simp
  show ?thesis
  proof (cases "v <s 0")
    case True
    then have "sint v < 0" by (simp add: word_sless_alt)
    with True a p show ?thesis by (simp add: parse_int_def)
  next
    case False
    then have pos: "0 \<le> sint v" by (simp add: word_sless_alt)
    from ne obtain c r where ds: "ds = c # r" by (cases ds) auto
    with d have "is_digit c" by simp
    then have "c \<noteq> CHR ''-''" by (auto simp: is_digit_def)
    with False a p pos ds show ?thesis by (simp add: parse_int_def)
  qed
qed


section \<open>A width given as a numeral or as an argument\<close>

text \<open>The decimal numeral of a number, as it would be written in a format, and what
  \<^verbatim>\<open>atoi\<close> and the field scanners make of it.\<close>

fun decimal_numeral :: "nat \<Rightarrow> char list" where
  "decimal_numeral n =
     (if n < 10 then [char_of (of_char (CHR ''0'') + n)]
      else decimal_numeral (n div 10) @ [char_of (of_char (CHR ''0'') + n mod 10)])"

declare decimal_numeral.simps [simp del]

lemma digit_of_char:
  assumes "q < 10"
  shows "is_digit (char_of (of_char (CHR ''0'') + q))"
    and "(of_char (char_of (of_char (CHR ''0'') + q) :: char) :: nat) - of_char (CHR ''0'') = q"
    and "q \<noteq> 0 \<Longrightarrow> char_of (of_char (CHR ''0'') + q) \<noteq> CHR ''0''"
proof -
  have e: "(of_char (char_of (48 + q :: nat) :: char) :: nat) = 48 + q"
    using assms by (simp add: of_char_of)
  then show "is_digit (char_of (of_char (CHR ''0'') + q))"
    using assms by (simp add: is_digit_def)
  from e show "(of_char (char_of (of_char (CHR ''0'') + q) :: char) :: nat) - of_char (CHR ''0'') = q"
    by simp
  show "char_of (of_char (CHR ''0'') + q) \<noteq> CHR ''0''" if "q \<noteq> 0"
  proof
    assume "char_of (of_char (CHR ''0'') + q) = CHR ''0''"
    then have "(of_char (char_of (48 + q :: nat) :: char) :: nat) = of_char (CHR ''0'')" by simp
    with e that show False by simp
  qed
qed

lemma decimal_numeral_digits: "\<forall>c \<in> set (decimal_numeral n). is_digit c"
proof (induction n rule: decimal_numeral.induct)
  case (1 n)
  show ?case
  proof (cases "n < 10")
    case True
    with digit_of_char(1) [OF True] show ?thesis
      by (subst decimal_numeral.simps) simp
  next
    case False
    have "n mod 10 < 10" by simp
    from digit_of_char(1) [OF this] "1.IH" [OF False] False show ?thesis
      by (subst decimal_numeral.simps) simp
  qed
qed

lemma decimal_numeral_nonempty: "decimal_numeral n \<noteq> []"
  by (subst decimal_numeral.simps) simp

lemma decimal_numeral_hd: "0 < n \<Longrightarrow> hd (decimal_numeral n) \<noteq> CHR ''0''"
proof (induction n rule: decimal_numeral.induct)
  case (1 n)
  show ?case
  proof (cases "n < 10")
    case True
    with "1.prems" have "n \<noteq> 0" by simp
    from digit_of_char(3) [OF True this] True show ?thesis
      by (subst decimal_numeral.simps) simp
  next
    case False
    then have "0 < n div 10" by simp
    from "1.IH" [OF False this] False decimal_numeral_nonempty [of "n div 10"] show ?thesis
      by (subst decimal_numeral.simps) simp
  qed
qed

lemma decimal_numeral_value:
  "foldl (\<lambda>a c. a * 10 + of_nat (of_char c - of_char (CHR ''0''))) (i :: 32 word) (decimal_numeral n)
     = i * 10 ^ length (decimal_numeral n) + of_nat n"
proof (induction n arbitrary: i rule: decimal_numeral.induct)
  case (1 n)
  show ?case
  proof (cases "n < 10")
    case True
    from digit_of_char(2) [OF True] True show ?thesis
      by (subst (1 2) decimal_numeral.simps) simp
  next
    case False
    have m: "n mod 10 < 10" by simp
    have s: "decimal_numeral n = decimal_numeral (n div 10) @ [char_of (of_char (CHR ''0'') + n mod 10)]"
      using False by (subst decimal_numeral.simps) simp
    have "(of_nat n :: 32 word) = of_nat (n div 10 * 10 + n mod 10)" by simp
    also have "\<dots> = of_nat (n div 10) * 10 + of_nat (n mod 10)"
      by (simp only: of_nat_add of_nat_mult) simp
    finally have n: "(of_nat n :: 32 word) = of_nat (n div 10) * 10 + of_nat (n mod 10)" .
    show ?thesis
      unfolding s using "1.IH" [OF False, of i] digit_of_char(2) [OF m]
      by (simp add: n algebra_simps)
  qed
qed


lemma peek_middle:
  "i < length ds \<Longrightarrow> peek (pre @ ds @ post) (length pre + i) = Some (ds ! i)"
  by (simp add: peek_def nth_append)

lemma peek_after:
  "peek (pre @ ds @ c # post) (length pre + length ds) = Some c"
  by (simp add: peek_def nth_append)

lemma atoi_loop_digits:
  assumes "\<forall>c \<in> set ds. is_digit c" and "\<not> is_digit c"
  shows "atoi_loop (pre @ ds @ c # post) (length pre) i =
           Inr (length pre + length ds,
                foldl (\<lambda>a c. a * 10 + of_nat (of_char c - of_char (CHR ''0''))) i ds)"
  using assms(1)
proof (induction ds arbitrary: pre i)
  case Nil
  from peek_after [of pre "[]" c post] assms(2) show ?case
    by (subst atoi_loop.simps) simp
next
  case (Cons x xs)
  have p: "peek (pre @ (x # xs) @ c # post) (length pre) = Some x"
    using peek_middle [of 0 "x # xs" pre "c # post"] by simp
  from Cons.prems have x: "is_digit x" and xs: "\<forall>c \<in> set xs. is_digit c" by simp_all
  have e: "pre @ (x # xs) @ c # post = (pre @ [x]) @ xs @ c # post" by simp
  have "atoi_loop (pre @ (x # xs) @ c # post) (length pre) i =
          atoi_loop ((pre @ [x]) @ xs @ c # post) (length (pre @ [x]))
            (i * 10 + of_nat (of_char x - of_char (CHR ''0'')))"
    using p x by (subst atoi_loop.simps) simp
  also note Cons.IH [OF xs, of "pre @ [x]"]
  finally show ?case by simp
qed

lemma atoi_decimal_numeral:
  assumes "\<not> is_digit c"
  shows "atoi (pre @ decimal_numeral n @ c # post) (length pre) =
           Inr (length pre + length (decimal_numeral n), of_nat n)"
  unfolding atoi_def
  using atoi_loop_digits [OF decimal_numeral_digits assms, where n1 = n and pre = pre and post = post and i = 0]
  by (simp only: decimal_numeral_value) simp

lemma decimal_numeral_first:
  assumes "0 < n"
  shows "peek (pre @ decimal_numeral n @ post) (length pre) = Some (hd (decimal_numeral n))"
    and "is_digit (hd (decimal_numeral n))"
    and "hd (decimal_numeral n) \<noteq> CHR ''0''"
proof -
  have ne: "decimal_numeral n \<noteq> []" by (rule decimal_numeral_nonempty)
  then have "0 < length (decimal_numeral n)" by simp
  from peek_middle [OF this, of pre post] ne
  show "peek (pre @ decimal_numeral n @ post) (length pre) = Some (hd (decimal_numeral n))"
    by (simp add: hd_conv_nth)
  from ne decimal_numeral_digits [of n] show "is_digit (hd (decimal_numeral n))"
    by (cases "decimal_numeral n") simp_all
  from assms show "hd (decimal_numeral n) \<noteq> CHR ''0''" by (rule decimal_numeral_hd)
qed

lemma eval_flags_minus_numeral:
  assumes "0 < n"
  shows "eval_flags (''%-'' @ decimal_numeral n @ post) 1 0 = Inr (2, FLAGS_LEFT)"
proof -
  let ?F = "''%-'' @ decimal_numeral n @ post"
  note f = decimal_numeral_first(1) [OF assms, where pre = "''%-''" and post = post]
    decimal_numeral_first(2,3) [OF assms]
  have a: "peek ?F 1 = Some (CHR ''-'')" by (simp add: peek_def)
  have b: "peek ?F 2 = Some (hd (decimal_numeral n))" using f(1) by (simp add: numeral_2_eq_2)
  have c: "hd (decimal_numeral n) \<noteq> CHR ''-''" "hd (decimal_numeral n) \<noteq> CHR ''+''"
    "hd (decimal_numeral n) \<noteq> CHR '' ''" "hd (decimal_numeral n) \<noteq> CHR ''#''"
    using f(2) by (auto simp: is_digit_def)
  have "eval_flags ?F 1 0 = eval_flags ?F 2 FLAGS_LEFT"
    using a by (subst eval_flags.simps) (simp add: numeral_2_eq_2)
  also have "\<dots> = Inr (2, FLAGS_LEFT)"
    using b c f(3) by (subst eval_flags.simps) simp
  finally show ?thesis .
qed

lemma eval_fields_minus_numeral:
  assumes "0 < n"
  shows "eval_fields (''%-'' @ decimal_numeral n @ ''d'') 1 d va =
           Inr (2 + length (decimal_numeral n),
                d\<lparr>flags := FLAGS_LEFT, width := ucast (of_nat n :: c_uint), precision := 0\<rparr>, va)"
proof -
  let ?F = "''%-'' @ decimal_numeral n @ ''d''"
  let ?k = "length (decimal_numeral n)"
  note f = decimal_numeral_first(1) [OF assms, where pre = "''%-''" and post = "''d''"]
    decimal_numeral_first(2,3) [OF assms]
  have b: "peek ?F 2 = Some (hd (decimal_numeral n))" using f(1) by (simp add: numeral_2_eq_2)
  have nd: "\<not> is_digit (CHR ''d'')" by (simp add: is_digit_def)
  have at: "atoi ?F 2 = Inr (2 + ?k, of_nat n)"
    using atoi_decimal_numeral [OF nd, of "''%-''" n "[]"] by (simp add: numeral_2_eq_2)
  have w: "eval_width ?F 2 (d\<lparr>flags := FLAGS_LEFT\<rparr>) va =
             Inr (2 + ?k, d\<lparr>flags := FLAGS_LEFT, width := ucast (of_nat n :: c_uint)\<rparr>, va)"
    unfolding eval_width_def using b f(2) at by (simp add: Let_def)
  have e: "peek ?F (2 + ?k) = Some (CHR ''d'')"
    using peek_after [of "''%-''" "decimal_numeral n" "CHR ''d''" "[]"] by simp
  have p: "eval_precision ?F (2 + ?k) (d\<lparr>flags := FLAGS_LEFT, width := ucast (of_nat n :: c_uint)\<rparr>) va =
             Inr (2 + ?k, d\<lparr>flags := FLAGS_LEFT, width := ucast (of_nat n :: c_uint), precision := 0\<rparr>, va)"
    unfolding eval_precision_def using e by (simp add: Let_def)
  have l: "eval_length ?F (2 + ?k) FLAGS_LEFT = Inr (2 + ?k, FLAGS_LEFT)"
    unfolding eval_length_def using e by simp
  show ?thesis
    using eval_flags_minus_numeral [OF assms, of "''d''"] w p l
    unfolding eval_fields_def by simp
qed

lemma eval_fields_star:
  assumes "w <s 0"
  shows "eval_fields ''%*d'' 1 d (ArgInt w # va) =
           Inr (2, d\<lparr>flags := FLAGS_LEFT, width := ucast (- w), precision := 0\<rparr>, va)"
  using assms
  by (simp add: eval_fields_def eval_flags.simps eval_width_def eval_precision_def eval_length_def
      va_arg_int_def peek_def is_digit_def Let_def)

lemma negative_as_numeral:
  assumes "(w :: c_uint) <s 0"
  shows "0 < nat (- sint w)" and "(of_nat (nat (- sint w)) :: c_uint) = - w"
proof -
  from assms have n: "sint w < 0" by (simp add: word_sless_alt)
  then show "0 < nat (- sint w)" by simp
  from n have "(of_nat (nat (- sint w)) :: c_uint) = of_int (- sint w)" by simp
  also have "\<dots> = - w" by simp
  finally show "(of_nat (nat (- sint w)) :: c_uint) = - w" .
qed

lemma eval_specifier_d:
  assumes "peek format p = Some (CHR ''d'')"
  shows "eval_specifier format p d va =
           (case convert_integer (CHR ''d'') d va of
              Inl e \<Rightarrow> Inl e
            | Inr (d', va') \<Rightarrow> Inr (p + 1, d', va'))"
  unfolding eval_specifier_def using assms by simp

lemma directive_star:
  assumes "w <s 0"
  shows "directive ''%*d'' 1 d (ArgInt w # va) =
           (case convert_integer (CHR ''d'')
                   (d\<lparr>flags := FLAGS_LEFT, width := ucast (- w), precision := 0\<rparr>) va of
              Inl e \<Rightarrow> Inl e
            | Inr (d', va') \<Rightarrow> Inr (3, d', va'))"
proof -
  have s: "peek ''%*d'' 2 = Some (CHR ''d'')" by (simp add: peek_def)
  show ?thesis
    unfolding directive_def
    by (simp only: eval_fields_star [OF assms] sum.case prod.case eval_specifier_d [OF s])
       (simp split: sum.splits)
qed

lemma directive_minus_numeral:
  assumes "0 < n"
  shows "directive (''%-'' @ decimal_numeral n @ ''d'') 1 d va =
           (case convert_integer (CHR ''d'')
                   (d\<lparr>flags := FLAGS_LEFT, width := ucast (of_nat n :: c_uint), precision := 0\<rparr>) va of
              Inl e \<Rightarrow> Inl e
            | Inr (d', va') \<Rightarrow> Inr (3 + length (decimal_numeral n), d', va'))"
proof -
  have e: "peek (''%-'' @ decimal_numeral n @ ''d'') (2 + length (decimal_numeral n)) = Some (CHR ''d'')"
    using peek_after [of "''%-''" "decimal_numeral n" "CHR ''d''" "[]"] by simp
  show ?thesis
    unfolding directive_def
    by (simp only: eval_fields_minus_numeral [OF assms] sum.case prod.case eval_specifier_d [OF e])
       (simp split: sum.splits)
qed

lemma directive_star_numeral:
  assumes "w <s 0"
  shows "map_sum id snd (directive ''%*d'' 1 d (ArgInt w # va)) =
         map_sum id snd (directive (''%-'' @ decimal_numeral (nat (- sint w)) @ ''d'') 1 d va)"
proof -
  note n = negative_as_numeral [OF assms]
  show ?thesis
    by (simp only: directive_star [OF assms] directive_minus_numeral [OF n(1)] n(2))
       (simp split: sum.splits)
qed

lemma format_loop_one_directive:
  assumes "peek format 0 = Some (CHR ''%'')"
    and "directive format 1 d va =
           (case r of Inl e \<Rightarrow> Inl e | Inr (d', va') \<Rightarrow> Inr (k, d', va'))"
    and "peek format k = Some NUL"
  shows "format_loop format 0 d va = map_sum id fst r"
proof (cases r)
  case (Inl e)
  with assms(1,2) show ?thesis by (subst format_loop.simps) (simp add: NUL_def)
next
  case (Inr x)
  obtain d' va' where x: "x = (d', va')" by (cases x)
  have "format_loop format k d' va' = Inr d'"
    using assms(3) by (subst format_loop.simps) simp
  with Inr x assms(1,2) show ?thesis by (subst format_loop.simps) (simp add: NUL_def)
qed

lemma format_out_star_numeral:
  assumes "w <s 0"
  shows "format_out f p ''%*d'' (ArgInt w # va) =
         format_out f p (''%-'' @ decimal_numeral (nat (- sint w)) @ ''d'') va"
proof -
  let ?ds = "decimal_numeral (nat (- sint w))"
  let ?F = "''%-'' @ ?ds @ ''d''"
  note n = negative_as_numeral [OF assms]
  have s0: "peek ''%*d'' 0 = Some (CHR ''%'')" by (simp add: peek_def)
  have f0: "peek ?F 0 = Some (CHR ''%'')" by (simp add: peek_def)
  have s3: "peek ''%*d'' 3 = Some NUL" by (simp add: peek_def)
  have f3: "peek ?F (3 + length ?ds) = Some NUL" by (simp add: peek_def)
  show ?thesis
    unfolding format_out_def
    by (simp only: format_loop_one_directive [OF s0 directive_star [OF assms] s3]
        format_loop_one_directive [OF f0 directive_minus_numeral [OF n(1)] f3] n(2))
qed



lemma ucast_negated:
  assumes "(w :: c_uint) <s 0"
  shows "(ucast (- w) :: uint8_t) = of_nat (nat \<bar>sint w\<bar>)"
proof -
  from assms have n: "sint w < 0" by (simp add: word_sless_alt)
  then have "(of_nat (nat (- sint w)) :: c_uint) = of_int (- sint w)" by simp
  also have "\<dots> = - w" by simp
  finally have e: "- w = (of_nat (nat (- sint w)) :: c_uint)" by simp
  have "(ucast (of_nat (nat (- sint w)) :: c_uint) :: uint8_t) = of_nat (nat (- sint w))"
    by (simp add: unsigned_of_nat word_of_nat_eq_iff min_def)
  with e n show ?thesis by simp
qed


lemma eval_width_star:
  "eval_width ''%*d'' 1 d (ArgInt w # va) =
     Inr (2, if w <s 0 then d\<lparr>flags := flags d OR FLAGS_LEFT, width := of_nat (nat \<bar>sint w\<bar>)\<rparr>
             else d\<lparr>width := ucast w\<rparr>, va)"
  by (simp add: eval_width_def va_arg_int_def peek_def is_digit_def Let_def ucast_negated)

section \<open>The bounded sink\<close>

text \<open>The heap after the bytes \<open>cs\<close> have been stored from address \<open>b\<close> on.\<close>

definition store_bytes :: "heap \<Rightarrow> addr \<Rightarrow> char list \<Rightarrow> heap" where
  "store_bytes h b cs = (\<lambda>a. if b \<le> a \<and> a < b + length cs then cs ! (a - b) else h a)"

lemma store_bytes_Nil [simp]: "store_bytes h b [] = h"
  by (rule ext) (auto simp: store_bytes_def)

lemma store_bytes_Cons: "store_bytes h b (c # cs) = store_bytes (h(b := c)) (b + 1) cs"
  by (rule ext) (auto simp: store_bytes_def nth_Cons')

lemma out_sprintf_full: "maxlen d = 0 \<Longrightarrow> out_sprintf c (h, d) = (h, d)"
  by (simp add: out_sprintf_def)

lemma fold_out_sprintf_full: "maxlen d = 0 \<Longrightarrow> fold out_sprintf cs (h, d) = (h, d)"
  by (induction cs) (simp_all add: out_sprintf_full)

lemma fold_out_sprintf_null: "buffer d = NULL \<Longrightarrow> fold out_sprintf cs (h, d) = (h, d)"
  by (induction cs) (simp_all add: out_sprintf_def)

lemma fold_out_sprintf:
  "b \<noteq> NULL \<Longrightarrow>
   fold out_sprintf cs (h, \<lparr>buffer = b, maxlen = m\<rparr>) =
     (store_bytes h b (take (unat m) cs),
      \<lparr>buffer = b + min (length cs) (unat m), maxlen = m - of_nat (min (length cs) (unat m))\<rparr>)"
proof (induction cs arbitrary: h b m)
  case Nil
  then show ?case by simp
next
  case (Cons c cs)
  show ?case
  proof (cases "m = 0")
    case True
    then show ?thesis using fold_out_sprintf_full [of "\<lparr>buffer = b, maxlen = m\<rparr>" "c # cs" h]
      by simp
  next
    case False
    then have pos: "0 < m" by (simp add: word_greater_zero_iff)
    then have um: "unat m = Suc (unat (m - 1))" by (rule unat_pos_Suc)
    from Cons.prems have b1: "b + 1 \<noteq> NULL" by (simp add: NULL_def)
    have "out_sprintf c (h, \<lparr>buffer = b, maxlen = m\<rparr>) = (h(b := c), \<lparr>buffer = b + 1, maxlen = m - 1\<rparr>)"
      using pos Cons.prems by (simp add: out_sprintf_def)
    then have "fold out_sprintf (c # cs) (h, \<lparr>buffer = b, maxlen = m\<rparr>)
        = fold out_sprintf cs (h(b := c), \<lparr>buffer = b + 1, maxlen = m - 1\<rparr>)"
      by simp
    also have "\<dots> = (store_bytes (h(b := c)) (b + 1) (take (unat (m - 1)) cs),
        \<lparr>buffer = b + 1 + min (length cs) (unat (m - 1)),
         maxlen = m - 1 - of_nat (min (length cs) (unat (m - 1)))\<rparr>)"
      by (rule Cons.IH [OF b1])
    also have "store_bytes (h(b := c)) (b + 1) (take (unat (m - 1)) cs)
        = store_bytes h b (take (unat m) (c # cs))"
      by (simp only: um take_Suc_Cons store_bytes_Cons)
    also have "b + 1 + min (length cs) (unat (m - 1)) = b + min (length (c # cs)) (unat m)"
      by (simp add: um)
    also have "m - 1 - of_nat (min (length cs) (unat (m - 1))) = m - of_nat (min (length (c # cs)) (unat m))"
      by (simp add: um)
    finally show ?thesis .
  qed
qed


lemma format_out_out_sprintf:
  assumes "format_out out_trace [] fmt va = Inr (n, cs)"
  shows "format_out out_sprintf (h, \<lparr>buffer = buf, maxlen = count\<rparr>) fmt va =
     Inr (n, if buf = NULL then (h, \<lparr>buffer = buf, maxlen = count\<rparr>)
             else (store_bytes h buf (take (unat count) cs),
                   \<lparr>buffer = buf + min (length cs) (unat count),
                    maxlen = count - of_nat (min (length cs) (unat count))\<rparr>))"
proof (cases "buf = NULL")
  case True
  then show ?thesis
    using fold_out_sprintf_null [of "\<lparr>buffer = buf, maxlen = count\<rparr>" cs h]
    by (simp add: format_out_sink [of out_sprintf] assms)
next
  case False
  then show ?thesis
    by (simp add: format_out_sink [of out_sprintf] assms fold_out_sprintf)
qed

lemma store_bytes_frame: "a < b \<or> b + length cs \<le> a \<Longrightarrow> store_bytes h b cs a = h a"
  by (auto simp: store_bytes_def)

lemma store_bytes_at: "i < length cs \<Longrightarrow> store_bytes h b cs (b + i) = cs ! i"
  by (simp add: store_bytes_def)

lemma capacity_left: "k \<le> unat (count :: size_t) \<Longrightarrow> (count - of_nat k \<noteq> 0) = (k < unat count)"
proof -
  assume a: "k \<le> unat count"
  then have u: "unat (of_nat k :: size_t) = k" by (rule le_unat_uoi)
  have "(of_nat k = count) = (k = unat count)"
  proof
    assume "of_nat k = count"
    with u show "k = unat count" by simp
  next
    assume "k = unat count"
    then show "of_nat k = count" by simp
  qed
  then show ?thesis using a by auto
qed

lemma snprintf_heap:
  assumes run: "format_out out_trace [] fmt va = Inr (n, cs)"
  shows "snprintf_c buf count fmt va h =
     Inr (uint n, if buf \<noteq> NULL \<and> count > 0
                  then store_bytes h buf (take (unat count - 1) cs @ [NUL]) else h)"
proof (cases "buf \<noteq> NULL \<and> count > 0")
  case False
  then have "buf = NULL \<or> unat count = 0" by (auto simp: word_greater_zero_iff)
  then show ?thesis using False
    by (auto simp: snprintf_c_def format_out_out_sprintf [OF run])
next
  case True
  then have b: "buf \<noteq> NULL" and c: "0 < unat count" by (simp_all add: word_greater_zero_iff unat_gt_0)
  let ?k = "min (length cs) (unat count)"
  have ml: "(count - of_nat ?k \<noteq> 0) = (length cs < unat count)"
    using capacity_left [of ?k count] by (auto simp: min_def)
  show ?thesis
  proof (cases "length cs < unat count")
    case short: True
    then have k: "?k = length cs" by simp
    have "(store_bytes h buf (take (unat count) cs))(buf + length cs := NUL)
        = store_bytes h buf (take (unat count - 1) cs @ [NUL])"
      using short by (intro ext) (auto simp: store_bytes_def nth_append)
    then show ?thesis using True b short ml k
      by (simp add: snprintf_c_def format_out_out_sprintf [OF run])
  next
    case long: False
    then have k: "?k = unat count" by simp
    have "(store_bytes h buf (take (unat count) cs))(buf + unat count - 1 := NUL)
        = store_bytes h buf (take (unat count - 1) cs @ [NUL])"
      using long c by (intro ext) (auto simp: store_bytes_def nth_append min_def)
    then show ?thesis using True b long ml k
      by (simp add: snprintf_c_def format_out_out_sprintf [OF run])
  qed
qed


lemma vsnprintf_snprintf: "vsnprintf_c buf count fmt va h = snprintf_c buf count fmt va h"
  by (simp add: vsnprintf_c_def snprintf_c_def)

section \<open>Properties\<close>

subsection \<open>The sinks\<close>

text \<open>
  C9. The device sink forwards a character to the external output primitive exactly
  when the character is not NUL: a non-null character is handed to \<^verbatim>\<open>_putchar\<close>, and for
  the null character the device is left as it was (nothing is forwarded).
\<close>

theorem out_char_forwards_iff_nonnull:
  "(out_char c dev = putchar_ext c dev) = (c \<noteq> NUL) \<and> (out_char c dev = dev) = (c = NUL)"
  by (simp add: out_char_def putchar_ext_def)

text \<open>
  C4. A call of \<^verbatim>\<open>snprintf_\<close> or \<^verbatim>\<open>vsnprintf_\<close> with capacity \<open>count\<close> whose interpretation
  emits the characters \<open>cs\<close>: the sink stores a character and decrements the capacity
  while the capacity is not zero, and leaves everything as it is once it is zero;
  exactly the first \<open>min (length cs) count\<close> characters are stored, from \<open>buf\<close> on; the
  heap after the call differs from the heap before only inside the \<open>count\<close> bytes of the
  buffer; with capacity zero it does not differ at all; when capacity remains the
  characters are followed by NUL at the write position; when the capacity is used up
  NUL replaces the last stored character.
\<close>

theorem snprintf_bounded_and_terminated:
  assumes run: "format_out out_trace [] fmt va = Inr (n, cs)"
  shows "\<exists>h'. snprintf_c buf count fmt va h = Inr (uint n, h')
     \<and> vsnprintf_c buf count fmt va h = Inr (uint n, h')
     \<and> (maxlen d = 0 \<longrightarrow> out_sprintf c (g, d) = (g, d))
     \<and> (maxlen d > 0 \<and> buffer d \<noteq> NULL \<longrightarrow>
          out_sprintf c (g, d) = (g(buffer d := c), d\<lparr>buffer := buffer d + 1, maxlen := maxlen d - 1\<rparr>))
     \<and> (buf \<noteq> NULL \<longrightarrow>
          format_out out_sprintf (h, \<lparr>buffer = buf, maxlen = count\<rparr>) fmt va =
            Inr (n, store_bytes h buf (take (unat count) cs),
                 \<lparr>buffer = buf + min (length cs) (unat count),
                  maxlen = count - of_nat (min (length cs) (unat count))\<rparr>))
     \<and> (\<forall>a. a < buf \<or> buf + unat count \<le> a \<longrightarrow> h' a = h a)
     \<and> (count = 0 \<longrightarrow> h' = h)
     \<and> (buf \<noteq> NULL \<and> length cs < unat count \<longrightarrow>
          (\<forall>i < length cs. h' (buf + i) = cs ! i) \<and> h' (buf + length cs) = NUL)
     \<and> (buf \<noteq> NULL \<and> 0 < unat count \<and> unat count \<le> length cs \<longrightarrow>
          (\<forall>i < unat count - 1. h' (buf + i) = cs ! i) \<and> h' (buf + (unat count - 1)) = NUL)"
proof -
  let ?xs = "take (unat count - 1) cs @ [NUL]"
  let ?h' = "if buf \<noteq> NULL \<and> count > 0 then store_bytes h buf ?xs else h"
  have pos: "(count > 0) = (0 < unat count)" by (simp add: word_greater_zero_iff unat_gt_0)
  have len: "0 < unat count \<Longrightarrow> length ?xs \<le> unat count" by simp
  have 1: "snprintf_c buf count fmt va h = Inr (uint n, ?h')"
    by (rule snprintf_heap [OF run])
  have 2: "vsnprintf_c buf count fmt va h = Inr (uint n, ?h')"
    by (simp only: vsnprintf_snprintf 1)
  have 3: "maxlen d = 0 \<longrightarrow> out_sprintf c (g, d) = (g, d)"
    by (simp add: out_sprintf_def)
  have 4: "maxlen d > 0 \<and> buffer d \<noteq> NULL \<longrightarrow>
      out_sprintf c (g, d) = (g(buffer d := c), d\<lparr>buffer := buffer d + 1, maxlen := maxlen d - 1\<rparr>)"
    by (simp add: out_sprintf_def)
  have 5: "buf \<noteq> NULL \<longrightarrow>
      format_out out_sprintf (h, \<lparr>buffer = buf, maxlen = count\<rparr>) fmt va =
        Inr (n, store_bytes h buf (take (unat count) cs),
             \<lparr>buffer = buf + min (length cs) (unat count),
              maxlen = count - of_nat (min (length cs) (unat count))\<rparr>)"
    by (simp add: format_out_out_sprintf [OF run])
  have 6: "\<forall>a. a < buf \<or> buf + unat count \<le> a \<longrightarrow> ?h' a = h a"
  proof (intro allI impI)
    fix a assume a: "a < buf \<or> buf + unat count \<le> a"
    show "?h' a = h a"
    proof (cases "buf \<noteq> NULL \<and> count > 0")
      case True
      then have "0 < unat count" by (simp add: pos)
      from len [OF this] a have "a < buf \<or> buf + length ?xs \<le> a" by linarith
      then have "store_bytes h buf ?xs a = h a" by (rule store_bytes_frame)
      with True show ?thesis by simp
    next
      case False
      then show ?thesis by auto
    qed
  qed
  have 7: "count = 0 \<longrightarrow> ?h' = h" by simp
  have 8: "buf \<noteq> NULL \<and> length cs < unat count \<longrightarrow>
      (\<forall>i < length cs. ?h' (buf + i) = cs ! i) \<and> ?h' (buf + length cs) = NUL"
  proof (intro impI, elim conjE)
    assume b: "buf \<noteq> NULL" and s: "length cs < unat count"
    then have h': "?h' = store_bytes h buf (cs @ [NUL])" by (simp add: pos)
    show "(\<forall>i < length cs. ?h' (buf + i) = cs ! i) \<and> ?h' (buf + length cs) = NUL"
      unfolding h' by (simp add: store_bytes_def nth_append)
  qed
  have 9: "buf \<noteq> NULL \<and> 0 < unat count \<and> unat count \<le> length cs \<longrightarrow>
      (\<forall>i < unat count - 1. ?h' (buf + i) = cs ! i) \<and> ?h' (buf + (unat count - 1)) = NUL"
  proof (intro impI, elim conjE)
    assume b: "buf \<noteq> NULL" and c: "0 < unat count" and l: "unat count \<le> length cs"
    then have h': "?h' = store_bytes h buf ?xs" by (simp add: pos)
    from c l have lt: "length (take (unat count - 1) cs) = unat count - 1" by simp
    show "(\<forall>i < unat count - 1. ?h' (buf + i) = cs ! i) \<and> ?h' (buf + (unat count - 1)) = NUL"
      unfolding h' using lt c by (auto simp: store_bytes_def nth_append)
  qed
  from 1 2 3 4 5 6 7 8 9 show ?thesis by blast
qed

theorem snprintf_bounded_and_terminated_witness:
  "\<exists>h'. snprintf_c 100 3 ''%d!'' [ArgInt 12345] (\<lambda>a. CHR ''z'') = Inr (6, h')
     \<and> h' 99 = CHR ''z'' \<and> h' 100 = CHR ''1'' \<and> h' 101 = CHR ''2'' \<and> h' 102 = NUL
     \<and> h' 103 = CHR ''z''"
proof -
  have run: "format_out out_trace [] ''%d!'' [ArgInt 12345] = Inr (6, ''12345!'')"
    by code_simp
  from snprintf_bounded_and_terminated [OF run, of 100 3 "\<lambda>a. CHR ''z''"]
  obtain h' where a: "snprintf_c 100 3 ''%d!'' [ArgInt 12345] (\<lambda>a. CHR ''z'') = Inr (uint (6 :: uint8_t), h')"
    and frame: "\<forall>a. a < 100 \<or> 100 + unat (3 :: size_t) \<le> a \<longrightarrow> h' a = CHR ''z''"
    and full: "(100 :: nat) \<noteq> NULL \<and> 0 < unat (3 :: size_t) \<and> unat (3 :: size_t) \<le> length ''12345!'' \<longrightarrow>
          (\<forall>i < unat (3 :: size_t) - 1. h' (100 + i) = ''12345!'' ! i) \<and> h' (100 + (unat (3 :: size_t) - 1)) = NUL"
    by blast
  from frame have "h' 99 = CHR ''z''" "h' 103 = CHR ''z''" by simp_all
  moreover from full have f: "(\<forall>i < 2. h' (100 + i) = ''12345!'' ! i) \<and> h' 102 = NUL"
    by (simp add: NULL_def)
  moreover from f have g: "\<And>i. i < 2 \<Longrightarrow> h' (100 + i) = ''12345!'' ! i" by blast
  from g [of 0] g [of 1] have "h' 100 = CHR ''1''" "h' 101 = CHR ''2''" by simp_all
  ultimately show ?thesis using a by auto
qed

subsection \<open>The emitted count\<close>

text \<open>
  C1. The count is not advanced by the trailing padding of a left-justified number: the
  loop at the end of \<^verbatim>\<open>ntoa_long\<close> (and of \<^verbatim>\<open>ntoa_long_long\<close>) calls \<^verbatim>\<open>out\<close> without
  \<^verbatim>\<open>idx++\<close>, unlike every other padding loop. For the format \<^verbatim>\<open>%-5d\<close> and the value 42 the
  device receives the five characters \<^verbatim>\<open>42\<close> and three spaces, and the call returns 2.
\<close>

theorem trailing_padding_not_counted:
  "printf_c ''%-5d'' [ArgInt 42] [] = Inr (2, ''42   '')"
  by code_simp

text \<open>
  What does hold of the count: it is the same for every sink, so a bounded sink of
  capacity zero returns what an unbounded sink returns.
\<close>

lemma count_independent_of_sink:
  "map_sum id fst (format_out f p fmt va) = map_sum id fst (format_out g q fmt va)"
  by (subst format_out_sink [of f], subst format_out_sink [of g])
     (cases "format_out out_trace [] fmt va", auto)

subsection \<open>Field width\<close>

text \<open>
  C2. For the value zero the digit count computed by \<^verbatim>\<open>get_digits_long\<close> is 0, while
  \<^verbatim>\<open>ntoa_long\<close> still writes the digit \<^verbatim>\<open>0\<close>: the format \<^verbatim>\<open>%5u\<close> with the value 0 yields
  five spaces and the digit, six characters for a field of width five.
\<close>

theorem zero_overflows_field_width:
  "get_digits_long 0 BASE_DECIMAL = 0 \<and> printf_c ''%5u'' [ArgInt 0] [] = Inr (6, ''     0'')"
  by code_simp

subsection \<open>Layout of a numeric directive\<close>

text \<open>
  C5. A numeric directive writes, in this order: the padding spaces (only when neither
  left-justified nor zero-padded), the sign (\<^verbatim>\<open>-\<close> for a negative value, else \<^verbatim>\<open>+\<close> under
  the plus flag, else a space under the space flag), the radix prefix, the precision
  zeros, the zero-pad zeros, then the digits, then the trailing spaces of a
  left-justified field. So \<^verbatim>\<open>%5d\<close>, \<^verbatim>\<open>%-5d\<close> and \<^verbatim>\<open>%05d\<close> of 42 and \<^verbatim>\<open>%#x\<close> of 255 write
  what the specification lists.
\<close>

theorem numeric_layout_order:
  "ptr (ntoa_long (ntoa_format d) v) =
     fold (out d)
       (spec_layout (flags d) (base d) (unat (width (ntoa_format_adjust d)))
            (unat (precision (ntoa_format_adjust d)))
          @ digits_of pow10_long (flags d) (base d) (digit_count d) v
          @ trailing_of (flags d) (unat (width (ntoa_format_adjust d))))
       (ptr d)
   \<and> ptr (ntoa_long_long (ntoa_format d) u) =
     fold (out d)
       (spec_layout (flags d) (base d) (unat (width (ntoa_format_adjust d)))
            (unat (precision (ntoa_format_adjust d)))
          @ digits_of pow10_long_long (flags d) (base d) (digit_count d) u
          @ trailing_of (flags d) (unat (width (ntoa_format_adjust d))))
       (ptr d)
   \<and> map_sum id snd (printf_c ''%5d'' [ArgInt 42] []) = Inr ''   42''
   \<and> map_sum id snd (printf_c ''%-5d'' [ArgInt 42] []) = Inr ''42   ''
   \<and> map_sum id snd (printf_c ''%05d'' [ArgInt 42] []) = Inr ''00042''
   \<and> map_sum id snd (printf_c ''%#x'' [ArgInt 255] []) = Inr ''0xff''"
proof -
  have "map_sum id snd (printf_c ''%5d'' [ArgInt 42] []) = Inr ''   42''"
    "map_sum id snd (printf_c ''%-5d'' [ArgInt 42] []) = Inr ''42   ''"
    "map_sum id snd (printf_c ''%05d'' [ArgInt 42] []) = Inr ''00042''"
    "map_sum id snd (printf_c ''%#x'' [ArgInt 255] []) = Inr ''0xff''"
    by code_simp+
  with ptr_ntoa_long_ntoa_format [of d v] ptr_ntoa_long_long_ntoa_format [of d u]
  show ?thesis by (intro conjI)
qed

theorem numeric_layout_order_witness:
  "ptr (ntoa_long (ntoa_format
       \<lparr>out = out_trace, ptr = [], flags = FLAGS_PLUS OR FLAGS_HASH OR FLAGS_PRECISION, idx = 0,
        width = 12, precision = 5, base = BASE_HEX, digit_count = 3\<rparr>) 2748) = ''    +0x00abc''"
proof -
  let ?d = "\<lparr>out = out_trace, ptr = [], flags = FLAGS_PLUS OR FLAGS_HASH OR FLAGS_PRECISION, idx = 0,
        width = 12, precision = 5, base = BASE_HEX, digit_count = 3 :: uint8_t\<rparr>"
  have "fold (out ?d)
       (spec_layout (flags ?d) (base ?d) (unat (width (ntoa_format_adjust ?d)))
            (unat (precision (ntoa_format_adjust ?d)))
          @ digits_of pow10_long (flags ?d) (base ?d) (digit_count ?d) 2748
          @ trailing_of (flags ?d) (unat (width (ntoa_format_adjust ?d))))
       (ptr ?d) = ''    +0x00abc''"
    by code_simp
  with numeric_layout_order [of ?d 2748 0, THEN conjunct1] show ?thesis
    by (rule trans)
qed

subsection \<open>The value zero\<close>




subsection \<open>Decimal round trip\<close>

text \<open>
  C6. For every value of each integer width, signed or unsigned, the decimal conversion
  writes an optional minus sign followed by a nonempty string of decimal digit
  characters, and reading the output back as a decimal numeral gives the value: \<open>sint\<close> of
  the argument for \<^verbatim>\<open>%d\<close>, \<^verbatim>\<open>%ld\<close> and \<^verbatim>\<open>%lld\<close>, \<open>uint\<close> of it for \<^verbatim>\<open>%u\<close>, \<^verbatim>\<open>%lu\<close> and \<^verbatim>\<open>%llu\<close>.
  The least signed value is included: its negation wraps to itself, the unsigned reading
  of which is its magnitude.
\<close>

theorem decimal_round_trip:
  fixes v :: c_uint and l :: c_ulong and w :: c_ulonglong
  shows
  "(\<exists>n ds. printf_c ''%d'' [ArgInt v] [] = Inr (n, (if v <s 0 then ''-'' else []) @ ds)
       \<and> ds \<noteq> [] \<and> (\<forall>c \<in> set ds. is_digit c)
       \<and> parse_int ((if v <s 0 then ''-'' else []) @ ds) = sint v)
   \<and> (\<exists>n ds. printf_c ''%u'' [ArgInt v] [] = Inr (n, ds)
       \<and> ds \<noteq> [] \<and> (\<forall>c \<in> set ds. is_digit c) \<and> int (parse_nat ds) = uint v)
   \<and> (\<exists>n ds. printf_c ''%ld'' [ArgLong l] [] = Inr (n, (if l <s 0 then ''-'' else []) @ ds)
       \<and> ds \<noteq> [] \<and> (\<forall>c \<in> set ds. is_digit c)
       \<and> parse_int ((if l <s 0 then ''-'' else []) @ ds) = sint l)
   \<and> (\<exists>n ds. printf_c ''%lu'' [ArgLong l] [] = Inr (n, ds)
       \<and> ds \<noteq> [] \<and> (\<forall>c \<in> set ds. is_digit c) \<and> int (parse_nat ds) = uint l)
   \<and> (\<exists>n ds. printf_c ''%lld'' [ArgLongLong w] [] = Inr (n, (if w <s 0 then ''-'' else []) @ ds)
       \<and> ds \<noteq> [] \<and> (\<forall>c \<in> set ds. is_digit c)
       \<and> parse_int ((if w <s 0 then ''-'' else []) @ ds) = sint w)
   \<and> (\<exists>n ds. printf_c ''%llu'' [ArgLongLong w] [] = Inr (n, ds)
       \<and> ds \<noteq> [] \<and> (\<forall>c \<in> set ds. is_digit c) \<and> int (parse_nat ds) = uint w)"
proof -
  have signed: "\<exists>n ds. printf_c fmt va [] = Inr (n, (if x <s 0 then ''-'' else []) @ ds)
       \<and> ds \<noteq> [] \<and> (\<forall>c \<in> set ds. is_digit c)
       \<and> parse_int ((if x <s 0 then ''-'' else []) @ ds) = sint x"
    if run: "map_sum id snd (format_out out_trace [] fmt va) = Inr ((if x <s 0 then ''-'' else []) @ ds)"
      and rb: "parse_nat ds = unat (ABS x) \<and> (\<forall>c \<in> set ds. is_digit c \<and> c \<noteq> NUL) \<and> ds \<noteq> []"
    for fmt va ds and x :: "'b::len word"
  proof -
    from rb have "\<forall>c \<in> set ((if x <s 0 then ''-'' else []) @ ds). c \<noteq> NUL"
      by (auto simp: NUL_def)
    from printf_of_trace [OF run this]
    obtain n where "printf_c fmt va [] = Inr (n, (if x <s 0 then ''-'' else []) @ ds)" ..
    moreover from rb have "parse_int ((if x <s 0 then ''-'' else []) @ ds) = sint x"
      by (intro signed_reads_back) simp_all
    ultimately show ?thesis using rb by blast
  qed
  have unsigned: "\<exists>n ds. printf_c fmt va [] = Inr (n, ds)
       \<and> ds \<noteq> [] \<and> (\<forall>c \<in> set ds. is_digit c) \<and> int (parse_nat ds) = uint x"
    if run: "map_sum id snd (format_out out_trace [] fmt va) = Inr ds"
      and rb: "parse_nat ds = unat x \<and> (\<forall>c \<in> set ds. is_digit c \<and> c \<noteq> NUL) \<and> ds \<noteq> []"
    for fmt va ds and x :: "'b::len word"
  proof -
    from rb have "\<forall>c \<in> set ds. c \<noteq> NUL" by simp
    from printf_of_trace [OF run this]
    obtain n where "printf_c fmt va [] = Inr (n, ds)" ..
    moreover from rb have "int (parse_nat ds) = uint x" by simp
    ultimately show ?thesis using rb by blast
  qed
  note a = signed [OF run_d decimal_long_reads_back]
  note b = unsigned [OF run_u decimal_long_reads_back]
  note c = signed [OF run_ld decimal_long_reads_back]
  note d = unsigned [OF run_lu decimal_long_reads_back]
  note e = signed [OF run_lld decimal_long_long_reads_back]
  note f = unsigned [OF run_llu decimal_long_long_reads_back]
  from a [of v] b [of v] c [of l] d [of l] e [of w] f [of w] show ?thesis by (intro conjI)
qed

theorem decimal_round_trip_witness:
  "printf_c ''%d'' [ArgInt (- 2147483648)] [] = Inr (11, ''-2147483648'')
   \<and> parse_int ''-2147483648'' = sint (- 2147483648 :: c_uint)
   \<and> sint (- 2147483648 :: c_uint) = - 2147483648"
proof -
  have run: "printf_c ''%d'' [ArgInt (- 2147483648)] [] = Inr (11, ''-2147483648'')"
    by code_simp
  have neg: "(- 2147483648 :: c_uint) <s 0" by code_simp
  from decimal_round_trip [of "- 2147483648" 0 0]
  obtain n ds where
    "printf_c ''%d'' [ArgInt (- 2147483648)] [] =
       Inr (n, (if (- 2147483648 :: c_uint) <s 0 then ''-'' else []) @ ds)"
    and "parse_int ((if (- 2147483648 :: c_uint) <s 0 then ''-'' else []) @ ds) = sint (- 2147483648 :: c_uint)"
    by blast
  with run neg have "parse_int ''-2147483648'' = sint (- 2147483648 :: c_uint)"
    by simp
  moreover have "sint (- 2147483648 :: c_uint) = - 2147483648" by simp
  ultimately show ?thesis using run by (intro conjI)
qed

subsection \<open>A negative width argument\<close>

text \<open>
  C8. A negative argument \<open>w\<close> of a \<^verbatim>\<open>*\<close> width: the format \<^verbatim>\<open>%*d\<close> run on \<open>w\<close> and \<open>v\<close> and the
  format \<^verbatim>\<open>%-<n>d\<close> run on \<open>v\<close>, where \<open><n>\<close> is the decimal numeral of the absolute value of \<open>w\<close>,
  return the same count and leave the same characters in every sink, so also on the device
  of \<^verbatim>\<open>printf_\<close>; the two directives leave the same context and the same remaining arguments
  from every context \<open>d\<close>. The width field itself: a negative argument sets the left-justify
  flag and stores its absolute value, narrowed to \<^verbatim>\<open>uint8_t\<close>; a non-negative one is stored
  as it is, narrowed likewise. With the arguments \<open>-5\<close> and \<open>3\<close> the output is \<^verbatim>\<open>3\<close> followed by
  four spaces, as it is for \<^verbatim>\<open>%-5d\<close> and \<open>3\<close>.
\<close>

theorem negative_star_width:
  "(w <s 0 \<longrightarrow>
       format_out f p ''%*d'' [ArgInt w, ArgInt v] =
         format_out f p (''%-'' @ decimal_numeral (nat \<bar>sint w\<bar>) @ ''d'') [ArgInt v]
     \<and> printf_c ''%*d'' [ArgInt w, ArgInt v] dev =
         printf_c (''%-'' @ decimal_numeral (nat \<bar>sint w\<bar>) @ ''d'') [ArgInt v] dev
     \<and> map_sum id snd (directive ''%*d'' 1 d (ArgInt w # va)) =
         map_sum id snd (directive (''%-'' @ decimal_numeral (nat \<bar>sint w\<bar>) @ ''d'') 1 d va))
   \<and> eval_width ''%*d'' 1 d (ArgInt w # va) =
       Inr (2, if w <s 0 then d\<lparr>flags := flags d OR FLAGS_LEFT, width := of_nat (nat \<bar>sint w\<bar>)\<rparr>
               else d\<lparr>width := ucast w\<rparr>, va)
   \<and> printf_c ''%*d'' [ArgInt (- 5), ArgInt 3] [] = Inr (1, ''3    '')
   \<and> printf_c ''%-5d'' [ArgInt 3] [] = Inr (1, ''3    '')
   \<and> decimal_numeral 5 = ''5''"
proof -
  have 1: "w <s 0 \<longrightarrow>
       format_out f p ''%*d'' [ArgInt w, ArgInt v] =
         format_out f p (''%-'' @ decimal_numeral (nat \<bar>sint w\<bar>) @ ''d'') [ArgInt v]
     \<and> printf_c ''%*d'' [ArgInt w, ArgInt v] dev =
         printf_c (''%-'' @ decimal_numeral (nat \<bar>sint w\<bar>) @ ''d'') [ArgInt v] dev
     \<and> map_sum id snd (directive ''%*d'' 1 d (ArgInt w # va)) =
         map_sum id snd (directive (''%-'' @ decimal_numeral (nat \<bar>sint w\<bar>) @ ''d'') 1 d va)"
  proof
    assume neg: "w <s 0"
    then have "sint w < 0" by (simp add: word_sless_alt)
    then have a: "nat \<bar>sint w\<bar> = nat (- sint w)" by simp
    show "format_out f p ''%*d'' [ArgInt w, ArgInt v] =
         format_out f p (''%-'' @ decimal_numeral (nat \<bar>sint w\<bar>) @ ''d'') [ArgInt v]
     \<and> printf_c ''%*d'' [ArgInt w, ArgInt v] dev =
         printf_c (''%-'' @ decimal_numeral (nat \<bar>sint w\<bar>) @ ''d'') [ArgInt v] dev
     \<and> map_sum id snd (directive ''%*d'' 1 d (ArgInt w # va)) =
         map_sum id snd (directive (''%-'' @ decimal_numeral (nat \<bar>sint w\<bar>) @ ''d'') 1 d va)"
      unfolding a printf_c_def
      by (simp only: format_out_star_numeral [OF neg] directive_star_numeral [OF neg])
  qed
  have 2: "printf_c ''%*d'' [ArgInt (- 5), ArgInt 3] [] = Inr (1, ''3    '')"
    by code_simp
  have 3: "printf_c ''%-5d'' [ArgInt 3] [] = Inr (1, ''3    '')"
    by code_simp
  have 4: "decimal_numeral 5 = ''5''"
    by code_simp
  from 1 eval_width_star [of d w va] 2 3 4 show ?thesis by (intro conjI)
qed

theorem negative_star_width_witness:
  "(- 5 :: c_uint) <s 0
   \<and> nat \<bar>sint (- 5 :: c_uint)\<bar> = 5
   \<and> format_out out_trace []
        (''%-'' @ decimal_numeral (nat \<bar>sint (- 5 :: c_uint)\<bar>) @ ''d'') [ArgInt 3] =
       Inr (1, ''3    '')"
proof -
  have neg: "(- 5 :: c_uint) <s 0" by code_simp
  have run: "format_out out_trace [] ''%*d'' [ArgInt (- 5), ArgInt 3] = Inr (1, ''3    '')"
    by code_simp
  have a: "nat \<bar>sint (- 5 :: c_uint)\<bar> = 5" by simp
  from negative_star_width [where w = "- 5" and f = out_trace and p = "[]" and v = 3] neg
  have "format_out out_trace [] ''%*d'' [ArgInt (- 5), ArgInt 3] =
        format_out out_trace []
          (''%-'' @ decimal_numeral (nat \<bar>sint (- 5 :: c_uint)\<bar>) @ ''d'') [ArgInt 3]"
    by blast
  with run have "format_out out_trace []
        (''%-'' @ decimal_numeral (nat \<bar>sint (- 5 :: c_uint)\<bar>) @ ''d'') [ArgInt 3] =
       Inr (1, ''3    '')"
    by simp
  with neg a show ?thesis by (intro conjI)
qed

subsection \<open>Unsupported conversion characters\<close>

text \<open>
  C7. A directive whose conversion character \<open>c\<close> (a character of the format, so not the
  terminator) is none of \<^verbatim>\<open>d i u x X o b c s p %\<close>: the specifier switch returns no error,
  hands \<open>c\<close> itself to the sink, counts it and moves to the next position, which still
  lies inside the string; the driver loop then goes on from that position with the rest
  of the format. The format \<^verbatim>\<open>%q\<close> writes the single character \<^verbatim>\<open>q\<close>.
\<close>

theorem unsupported_conversion_is_literal:
  assumes c: "peek format q = Some c"
    and nz: "c \<noteq> NUL"
    and un: "c \<notin> set ''diuxXobcsp%''"
  shows "eval_specifier format q data va =
           Inr (q + 1, data\<lparr>ptr := out data c (ptr data), idx := idx data + 1\<rparr>, va)
     \<and> peek format (q + 1) \<noteq> None
     \<and> (peek format p = Some (CHR ''%'') \<and> eval_fields format (p + 1) data0 va0 = Inr (q, data, va)
          \<longrightarrow> format_loop format p data0 va0 =
               format_loop format (q + 1) (data\<lparr>ptr := out data c (ptr data), idx := idx data + 1\<rparr>) va)
     \<and> printf_c ''%q'' [] [] = Inr (1, ''q'')"
proof -
  have 1: "eval_specifier format q data va =
           Inr (q + 1, data\<lparr>ptr := out data c (ptr data), idx := idx data + 1\<rparr>, va)"
    using c un by (simp add: eval_specifier_def do_out_def)
  from c nz have "q < length format"
    by (auto simp: peek_def split: if_splits)
  then have 2: "peek format (q + 1) \<noteq> None"
    by (simp add: peek_def)
  have 3: "peek format p = Some (CHR ''%'') \<and> eval_fields format (p + 1) data0 va0 = Inr (q, data, va)
          \<longrightarrow> format_loop format p data0 va0 =
               format_loop format (q + 1) (data\<lparr>ptr := out data c (ptr data), idx := idx data + 1\<rparr>) va"
  proof (intro impI, elim conjE)
    assume pc: "peek format p = Some (CHR ''%'')"
      and ef: "eval_fields format (p + 1) data0 va0 = Inr (q, data, va)"
    have "directive format (p + 1) data0 va0 =
        Inr (q + 1, data\<lparr>ptr := out data c (ptr data), idx := idx data + 1\<rparr>, va)"
      using ef 1 by (simp add: directive_def)
    with pc show "format_loop format p data0 va0 =
               format_loop format (q + 1) (data\<lparr>ptr := out data c (ptr data), idx := idx data + 1\<rparr>) va"
      by (subst format_loop.simps) (simp add: NUL_def)
  qed
  have 4: "printf_c ''%q'' [] [] = Inr (1, ''q'')"
    by code_simp
  from 1 2 3 4 show ?thesis by (intro conjI)
qed

theorem unsupported_conversion_is_literal_witness:
  "peek ''a%5qb'' 3 = Some (CHR ''q'') \<and> CHR ''q'' \<noteq> NUL \<and> CHR ''q'' \<notin> set ''diuxXobcsp%''
   \<and> peek ''a%5qb'' 1 = Some (CHR ''%'')
   \<and> eval_fields ''a%5qb'' (1 + 1)
        \<lparr>out = out_trace, ptr = ''a'', flags = 0, idx = 1, width = 0, precision = 0,
         base = BASE_BINARY, digit_count = 0\<rparr> [] =
       Inr (3, \<lparr>out = out_trace, ptr = ''a'', flags = 0, idx = 1, width = 5, precision = 0,
         base = BASE_BINARY, digit_count = 0\<rparr>, [])
   \<and> peek ''a%5qb'' (3 + 1) \<noteq> None
   \<and> map_sum id (\<lambda>d. (idx d, ptr d))
        (format_loop ''a%5qb'' 1
          \<lparr>out = out_trace, ptr = ''a'', flags = 0, idx = 1, width = 0, precision = 0,
           base = BASE_BINARY, digit_count = 0\<rparr> []) = Inr (3, ''aqb'')"
proof -
  let ?d0 = "\<lparr>out = out_trace, ptr = ''a'', flags = 0, idx = 1, width = 0, precision = 0,
         base = BASE_BINARY, digit_count = 0 :: uint8_t\<rparr>"
  let ?d1 = "\<lparr>out = out_trace, ptr = ''a'', flags = 0, idx = 1, width = 5 :: uint8_t, precision = 0,
         base = BASE_BINARY, digit_count = 0 :: uint8_t\<rparr>"
  have c: "peek ''a%5qb'' 3 = Some (CHR ''q'')" by code_simp
  have nz: "CHR ''q'' \<noteq> NUL" by (simp add: NUL_def)
  have un: "CHR ''q'' \<notin> set ''diuxXobcsp%''" by simp
  have pc: "peek ''a%5qb'' 1 = Some (CHR ''%'')" by code_simp
  have ef: "eval_fields ''a%5qb'' (1 + 1) ?d0 [] = Inr (3, ?d1, [])"
    by (simp add: eval_fields_def eval_flags.simps eval_width_def eval_precision_def
        eval_length_def atoi_def atoi_loop.simps peek_def is_digit_def NUL_def)
  note th = unsupported_conversion_is_literal [OF c nz un, of ?d1 "[]" 1 ?d0 "[]"]
  from th have nx: "peek ''a%5qb'' (3 + 1) \<noteq> None" by (elim conjE)
  from th pc ef have "format_loop ''a%5qb'' 1 ?d0 [] =
      format_loop ''a%5qb'' (3 + 1) (?d1\<lparr>ptr := out ?d1 (CHR ''q'') (ptr ?d1), idx := idx ?d1 + 1\<rparr>) []"
    by blast
  moreover have "map_sum id (\<lambda>d. (idx d, ptr d))
      (format_loop ''a%5qb'' (3 + 1) (?d1\<lparr>ptr := out ?d1 (CHR ''q'') (ptr ?d1), idx := idx ?d1 + 1\<rparr>) [])
      = Inr (3, ''aqb'')"
    by code_simp
  ultimately have run: "map_sum id (\<lambda>d. (idx d, ptr d)) (format_loop ''a%5qb'' 1 ?d0 []) = Inr (3, ''aqb'')"
    by (simp only:)
  from c nz un pc ef nx run show ?thesis by (intro conjI)
qed

subsection \<open>Reads of the format string\<close>

text \<open>
  C10. A format that ends in a lone \<^verbatim>\<open>%\<close>: the default case of the specifier switch
  emits the terminating NUL and advances the scan position past it, and the loop test
  then reads the position after the terminator. The same happens after a literal prefix.
\<close>

theorem lone_percent_reads_past_terminator:
  "map_sum id (\<lambda>(p', data', va'). (p', idx data', ptr data'))
     (eval_specifier ''%'' 1 \<lparr>out = (\<lambda>c cs. cs @ [c]), ptr = [], flags = 0, idx = 0, width = 0,
        precision = 0, base = BASE_BINARY, digit_count = 0\<rparr> []) = Inr (2, 1, [NUL])
   \<and> peek ''%'' 2 = None
   \<and> printf_c ''%'' [] [] = Inl ReadPastTerminator
   \<and> printf_c ''abc%'' [] [] = Inl ReadPastTerminator"
  by code_simp

end
